theory Spec2Isabelle
  imports Main
begin

section \<open>Errors and the parser's data\<close>

text \<open>
  A Go \<^verbatim>\<open>error\<close> is either a value handed back by a collaborator (the scope resolver,
  the type predicates, the template engine, the file system) or a wrapper built in this
  file by \<^verbatim>\<open>fmt.Errorf(format, ast.Filename, err)\<close>, whose format quotes the filename with
  \<^verbatim>\<open>%q\<close> and wraps the cause with \<^verbatim>\<open>%w\<close>.
\<close>

datatype error =
    External string
  | Errorf string string error

text \<open>
  The parts of \<^verbatim>\<open>parser.Type\<close>, \<^verbatim>\<open>parser.Field\<close>, \<^verbatim>\<open>parser.StructLike\<close> and
  \<^verbatim>\<open>parser.Thrift\<close> that the patcher reads. The parser hands out non-nil pointers; a
  pointer is identified with the value it points to, which is sound here because the
  patcher never writes through one and the collaborators read only the pointed-to data.
  \<open>GoNamespace\<close> is the result of \<^verbatim>\<open>ast.GetNamespaceOrReferenceName("go")\<close> and
  \<open>GetStructLike\<close> the result of \<^verbatim>\<open>ast.GetStructLike()\<close>.
\<close>

record Type =
  TypeName :: string

record Field =
  FieldName :: string
  FieldType :: Type

record StructLike =
  StructName :: string
  Fields :: "Field list"

record Thrift =
  Filename :: string
  GoNamespace :: string
  GetStructLike :: "StructLike list"

section \<open>reorderStructFields\<close>

text \<open>
  The first loop fills the map \<^verbatim>\<open>fixedLengthFields\<close> and returns at the first error of
  \<^verbatim>\<open>IsFixedLengthType\<close>. The slice \<^verbatim>\<open>fields\<close> is written \<open>flds\<close>.
\<close>

fun classifyFields ::
  "(Type \<Rightarrow> error + bool) \<Rightarrow> Field list \<Rightarrow> (Field \<rightharpoonup> bool) \<Rightarrow> error + (Field \<rightharpoonup> bool)" where
  "classifyFields IsFixedLengthType [] fixedLengthFields = Inr fixedLengthFields"
| "classifyFields IsFixedLengthType (field # rest) fixedLengthFields =
     (case IsFixedLengthType (FieldType field) of
        Inl err \<Rightarrow> Inl err
      | Inr ok \<Rightarrow> classifyFields IsFixedLengthType rest (fixedLengthFields(field \<mapsto> ok)))"

text \<open>Reading a \<^verbatim>\<open>map[K]bool\<close> at a missing key gives \<^verbatim>\<open>false\<close>.\<close>

definition lookupBool :: "('k \<rightharpoonup> bool) \<Rightarrow> 'k \<Rightarrow> bool" where
  "lookupBool m k = (case m k of None \<Rightarrow> False | Some b \<Rightarrow> b)"

text \<open>One pass of \<^verbatim>\<open>for _, v := range fields { if c(v) { sortedFields = append(sortedFields, v) } }\<close>.\<close>

definition appendWhere :: "('a \<Rightarrow> bool) \<Rightarrow> 'a list \<Rightarrow> 'a list \<Rightarrow> 'a list" where
  "appendWhere c flds sortedFields =
     fold (\<lambda>v acc. if c v then acc @ [v] else acc) flds sortedFields"

definition reorderStructFields ::
  "(Type \<Rightarrow> error + bool) \<Rightarrow> Field list \<Rightarrow> Field list \<times> error option" where
  "reorderStructFields IsFixedLengthType flds =
     (case classifyFields IsFixedLengthType flds Map.empty of
        Inl err \<Rightarrow> ([], Some err)
      | Inr fixedLengthFields \<Rightarrow>
          (let sortedFields = [];
               sortedFields = appendWhere (\<lambda>v. lookupBool fixedLengthFields v) flds sortedFields;
               sortedFields = appendWhere (\<lambda>v. \<not> lookupBool fixedLengthFields v) flds sortedFields
           in (sortedFields, None)))"

section \<open>filterBase\<close>

text \<open>
  \<^verbatim>\<open>Unexport\<close> returns a name and an error; \<^verbatim>\<open>filterBase\<close> binds the error to \<^verbatim>\<open>_\<close>.
  The anonymous result struct is the record \<open>Envelopes\<close>.
\<close>

record Envelopes =
  Requests :: "StructLike list"
  Responses :: "StructLike list"

definition filterBase_field ::
  "(string \<Rightarrow> string \<times> error option) \<Rightarrow> StructLike \<Rightarrow> Field \<Rightarrow>
     StructLike list \<times> StructLike list \<Rightarrow> StructLike list \<times> StructLike list" where
  "filterBase_field Unexport s f = (\<lambda>(req, res).
     (let fn = fst (Unexport (FieldName f));
          tn = TypeName (FieldType f);
          req = (if fn = ''base'' \<and> tn = ''base.Base'' then req @ [s] else req);
          res = (if fn = ''baseResp'' \<and> tn = ''base.BaseResp'' then res @ [s] else res)
      in (req, res)))"

definition filterBase :: "(string \<Rightarrow> string \<times> error option) \<Rightarrow> Thrift \<Rightarrow> Envelopes" where
  "filterBase Unexport ast =
     (let (req, res) =
            fold (\<lambda>s acc. fold (filterBase_field Unexport s) (Fields s) acc)
              (GetStructLike ast) ([], [])
      in \<lparr>Requests = req, Responses = res\<rparr>)"

section \<open>typeIDToGoType\<close>

definition typeIDToGoType :: "string \<rightharpoonup> string" where
  "typeIDToGoType = map_of
     [(''Bool'', ''bool''),
      (''Byte'', ''int8''),
      (''I16'', ''int16''),
      (''I32'', ''int32''),
      (''I64'', ''int64''),
      (''Double'', ''float64''),
      (''String'', ''string''),
      (''Binary'', ''[]byte'')]"

text \<open>
  The template helper \<^verbatim>\<open>func(t string) string { return typeIDToGoType[t] }\<close>: a missing key
  reads as the empty string.
\<close>

definition TypeIDToGoType :: "string \<Rightarrow> string" where
  "TypeIDToGoType t = (case typeIDToGoType t of None \<Rightarrow> [] | Some v \<Rightarrow> v)"

section \<open>filterStdLib\<close>

text \<open>
  \<^verbatim>\<open>strings.HasPrefix(s, prefix)\<close> and \<^verbatim>\<open>strings.Contains(s, substr)\<close> of the Go library,
  on byte strings.
\<close>

definition HasPrefix :: "string \<Rightarrow> string \<Rightarrow> bool" where
  "HasPrefix s prefix \<longleftrightarrow> length prefix \<le> length s \<and> take (length prefix) s = prefix"

fun Contains :: "string \<Rightarrow> string \<Rightarrow> bool" where
  "Contains [] substr = (substr = [])"
| "Contains (c # cs) substr = (HasPrefix (c # cs) substr \<or> Contains cs substr)"

text \<open>
  A \<^verbatim>\<open>map[string]string\<close> of import paths to aliases is the list of its entries, in the
  order in which \<^verbatim>\<open>range\<close> yields them (an order the Go runtime chooses). \<^verbatim>\<open>delete\<close>
  removes the entry of a key.
\<close>

type_synonym import_map = "(string \<times> string) list"

definition delete :: "import_map \<Rightarrow> string \<Rightarrow> import_map" where
  "delete m k = filter (\<lambda>(k', v). k' \<noteq> k) m"

text \<open>The body of the loop of \<^verbatim>\<open>filterStdLib\<close>, for one key \<open>pth\<close>.\<close>

definition filterStdLib_body :: "string \<Rightarrow> string \<Rightarrow> import_map \<Rightarrow> import_map" where
  "filterStdLib_body prefix pth imports =
     (if HasPrefix pth prefix then imports
      else
        (let imports = (if pth = ''github.com/apache/thrift/lib/go/thrift''
                        then delete imports pth else imports);
             imports = (if HasPrefix pth ''github.com/cloudwego/thriftgo''
                        then delete imports pth else imports);
             imports = (if \<not> Contains pth ''.'' then delete imports pth else imports)
         in imports))"

text \<open>
  \<^verbatim>\<open>for pth := range imports\<close> visits the keys present when the loop starts; a key that
  was deleted before being reached is not produced. The function returns the map as the
  loop leaves it (the Go code mutates its argument in place). \<open>module\<close> is the
  patcher's field \<^verbatim>\<open>p.module\<close>.
\<close>

definition filterStdLib :: "string \<Rightarrow> import_map \<Rightarrow> import_map" where
  "filterStdLib module imports =
     (let prefix = module @ ''/''
      in fold (\<lambda>pth imports.
                 if pth \<in> fst ` set imports then filterStdLib_body prefix pth imports
                 else imports)
           (map fst imports) imports)"

text \<open>
  The paths on which the loop body deletes nothing: those under the module prefix (the
  \<^verbatim>\<open>continue\<close>), and those that pass none of the three deleting tests.
\<close>

definition survives :: "string \<Rightarrow> string \<Rightarrow> bool" where
  "survives module pth \<longleftrightarrow>
     HasPrefix pth (module @ ''/'') \<or>
     (pth \<noteq> ''github.com/apache/thrift/lib/go/thrift'' \<and>
      \<not> HasPrefix pth ''github.com/cloudwego/thriftgo'' \<and>
      Contains pth ''.'')"

section \<open>File paths\<close>

text \<open>
  The functions of Go's \<^verbatim>\<open>strings\<close> and \<^verbatim>\<open>path/filepath\<close> packages that \<^verbatim>\<open>patch\<close> calls, for a
  system whose separator is \<open>/\<close> and whose paths have no volume name. \<^verbatim>\<open>Clean\<close> follows the
  rules of its documentation, element by element: empty elements and \<open>.\<close> are dropped; \<open>..\<close>
  removes the element before it when there is one to remove, is dropped at the root of a
  rooted path, and is kept in front otherwise; an empty result is \<open>.\<close>.
\<close>

fun strings_Join :: "string list \<Rightarrow> string \<Rightarrow> string" where
  "strings_Join [] sep = []"
| "strings_Join [e] sep = e"
| "strings_Join (e # es) sep = e @ sep @ strings_Join es sep"

text \<open>The elements of a path: the pieces between its separators.\<close>

fun elements :: "string \<Rightarrow> string list" where
  "elements [] = [[]]"
| "elements (c # cs) =
     (if c = CHR ''/'' then [] # elements cs
      else (case elements cs of [] \<Rightarrow> [[c]] | e # es \<Rightarrow> (c # e) # es))"

text \<open>
  The state of \<^verbatim>\<open>Clean\<close> is the number of \<open>..\<close> elements kept in front (what lies below
  the mark \<^verbatim>\<open>dotdot\<close> of the Go code) and the stack of elements written after them, last
  element first.
\<close>

definition cleanElement :: "bool \<Rightarrow> string \<Rightarrow> nat \<times> string list \<Rightarrow> nat \<times> string list" where
  "cleanElement rooted e = (\<lambda>(dotdot, out).
     if e = [] \<or> e = ''.'' then (dotdot, out)
     else if e = ''..'' then
       (case out of
          _ # out' \<Rightarrow> (dotdot, out')
        | [] \<Rightarrow> if \<not> rooted then (dotdot + 1, out) else (dotdot, out))
     else (dotdot, e # out))"

definition Clean :: "string \<Rightarrow> string" where
  "Clean path =
     (if path = [] then ''.''
      else
        (let rooted = (hd path = CHR ''/'');
             (dotdot, out) = fold (cleanElement rooted) (elements path) (0, []);
             body = strings_Join (replicate dotdot ''..'' @ rev out) ''/'';
             res = (if rooted then ''/'' @ body else body)
         in if res = [] then ''.'' else res))"

text \<open>\<^verbatim>\<open>filepath.Join\<close>: empty leading elements are ignored, the rest is joined and cleaned.\<close>

fun Join :: "string list \<Rightarrow> string" where
  "Join [] = []"
| "Join (e # es) = (if e \<noteq> [] then Clean (strings_Join (e # es) ''/'') else Join es)"

text \<open>\<^verbatim>\<open>filepath.Split\<close> cuts after the last separator.\<close>

definition Split :: "string \<Rightarrow> string \<times> string" where
  "Split path =
     (let base = rev (takeWhile (\<lambda>c. c \<noteq> CHR ''/'') (rev path))
      in (take (length path - length base) path, base))"

definition Dir :: "string \<Rightarrow> string" where
  "Dir path = Clean (fst (Split path))"

definition Base :: "string \<Rightarrow> string" where
  "Base path =
     (if path = [] then ''.''
      else
        (let path = rev (dropWhile (\<lambda>c. c = CHR ''/'') (rev path));
             path = snd (Split path)
         in if path = [] then ''/'' else path))"

text \<open>
  Auxiliary notions for reasoning about \<^verbatim>\<open>Clean\<close>: a real path element (neither empty, nor
  \<open>.\<close>, nor \<open>..\<close>, and free of separators), the text that \<^verbatim>\<open>Clean\<close> writes for a final
  state, and a cleaned directory extended by one real element.
\<close>

definition realName :: "string \<Rightarrow> bool" where
  "realName e \<longleftrightarrow> e \<noteq> [] \<and> e \<noteq> ''.'' \<and> e \<noteq> ''..'' \<and> CHR ''/'' \<notin> set e"

definition joinName :: "string \<Rightarrow> string \<Rightarrow> string" where
  "joinName d n = (if d = ''.'' then n else if d = ''/'' then ''/'' @ n else d @ ''/'' @ n)"

definition render :: "bool \<Rightarrow> nat \<times> string list \<Rightarrow> string" where
  "render rooted st =
     (let body = strings_Join (replicate (fst st) ''..'' @ rev (snd st)) ''/'';
          res = (if rooted then ''/'' @ body else body)
      in if res = [] then ''.'' else res)"

section \<open>patch\<close>

definition kitexUnusedProtection :: string where
  "kitexUnusedProtection =
     [CHR 0x0A] @ ''// KitexUnusedProtection is used to prevent '' @ [CHR 0x27] @
     ''imported and not used'' @ [CHR 0x27] @ '' error.'' @ [CHR 0x0A] @
     ''var KitexUnusedProtection = struct{}{}'' @ [CHR 0x0A]"

text \<open>
  \<^verbatim>\<open>plugin.Generated\<close> (the insertion point, which \<^verbatim>\<open>patch\<close> never sets, is left out),
  \<^verbatim>\<open>golang.Data\<close>, and \<^verbatim>\<open>plugin.Request\<close>, of which \<^verbatim>\<open>patch\<close> reads the output path and
  the documents in the order in which \<^verbatim>\<open>req.AST.DepthFirstSearch()\<close> yields them.
\<close>

record Generated =
  Content :: string
  Name :: string

record Data =
  AST :: Thrift
  PkgName :: string
  Imports :: import_map

record Request =
  OutputPath :: string
  DepthFirstSearch :: "Thrift list"

text \<open>
  The methods of \<^verbatim>\<open>golang.CodeUtils\<close> that \<^verbatim>\<open>patch\<close> calls. \<^verbatim>\<open>SetRootScope(scope)\<close> stores the
  scope that later calls read, so \<^verbatim>\<open>GetFilePath\<close> and \<^verbatim>\<open>ResolveImports\<close> take it as an
  argument. A Go result \<^verbatim>\<open>(v, err)\<close> whose value is used only when \<^verbatim>\<open>err == nil\<close> is a sum.
\<close>

record 'scope CodeUtils =
  BuildScope :: "Thrift \<Rightarrow> error + 'scope"
  NamespaceToPackage :: "string \<Rightarrow> string"
  GetFilePath :: "'scope \<Rightarrow> Thrift \<Rightarrow> error + string"
  ResolveImports :: "'scope \<Rightarrow> error + import_map"

text \<open>
  The patcher. \<open>fileTpl\<close> stands for the template set that \<^verbatim>\<open>buildTemplates\<close> installs,
  through what \<^verbatim>\<open>ExecuteTemplate(&buf, "file", data)\<close> does with it: the rendered text, or an
  error.
\<close>

record 'scope patcher =
  noFastAPI :: bool
  utils :: "'scope CodeUtils"
  module :: string
  copyIDL :: bool
  fileTpl :: "Data \<Rightarrow> error + string"

text \<open>
  The body of the loop of \<^verbatim>\<open>patch\<close> for one document, on the state made of the slice
  \<^verbatim>\<open>patches\<close> and the map \<^verbatim>\<open>protection\<close>. \<open>Inl\<close> is a \<^verbatim>\<open>return nil, err\<close>. \<open>ReadFile\<close> is
  \<^verbatim>\<open>ioutil.ReadFile\<close>.
\<close>

definition patch_ast ::
  "(string \<Rightarrow> error + string) \<Rightarrow> 'scope patcher \<Rightarrow> string \<Rightarrow> Thrift \<Rightarrow>
     Generated list \<times> (string \<rightharpoonup> Generated) \<Rightarrow>
     error + (Generated list \<times> (string \<rightharpoonup> Generated))" where
  "patch_ast ReadFile p outputPath ast = (\<lambda>(patches, protection).
     case BuildScope (utils p) ast of
       Inl err \<Rightarrow> Inl (Errorf ''build scope for ast %q: %w'' (Filename ast) err)
     | Inr scope \<Rightarrow>
        (let namespace = GoNamespace ast;
             pkgName = NamespaceToPackage (utils p) namespace
         in case GetFilePath (utils p) scope ast of
           Inl err \<Rightarrow> Inl err
         | Inr path \<Rightarrow>
            (let full = Join [outputPath, path];
                 (dir, base) = Split full;
                 target = Join [dir, ''k-'' @ base];
                 consts = Join [Dir full, ''k-consts.go''];
                 (patches, protection) =
                   (if protection consts = None then
                      (let patch = \<lparr>Content = ''package '' @ pkgName @ [CHR 0x0A] @
                                               kitexUnusedProtection,
                                    Name = consts\<rparr>
                       in (patches @ [patch], protection(consts \<mapsto> patch)))
                    else (patches, protection))
             in case ResolveImports (utils p) scope of
               Inl err \<Rightarrow>
                 Inl (Errorf ''resolve imports failed for %q: %w'' (Filename ast) err)
             | Inr imports \<Rightarrow>
                (let data = \<lparr>AST = ast, PkgName = pkgName,
                              Imports = filterStdLib (module p) imports\<rparr>
                 in case fileTpl p data of
                   Inl err \<Rightarrow> Inl (Errorf ''%q: %w'' (Filename ast) err)
                 | Inr content \<Rightarrow>
                    (let patches = patches @ [\<lparr>Content = content, Name = target\<rparr>]
                     in if copyIDL p then
                          (case ReadFile (Filename ast) of
                             Inl err \<Rightarrow> Inl (Errorf ''read %q: %w'' (Filename ast) err)
                           | Inr content \<Rightarrow>
                              (let path = Join [Dir full, Base (Filename ast)]
                               in Inr (patches @ [\<lparr>Content = content, Name = path\<rparr>],
                                       protection)))
                        else Inr (patches, protection))))))"

fun patch_loop ::
  "(string \<Rightarrow> error + string) \<Rightarrow> 'scope patcher \<Rightarrow> string \<Rightarrow> Thrift list \<Rightarrow>
     Generated list \<times> (string \<rightharpoonup> Generated) \<Rightarrow>
     error + (Generated list \<times> (string \<rightharpoonup> Generated))" where
  "patch_loop ReadFile p outputPath [] st = Inr st"
| "patch_loop ReadFile p outputPath (ast # asts) st =
     (case patch_ast ReadFile p outputPath ast st of
        Inl err \<Rightarrow> Inl err
      | Inr st' \<Rightarrow> patch_loop ReadFile p outputPath asts st')"

text \<open>
  \<^verbatim>\<open>patch\<close> returns the pair \<^verbatim>\<open>(patches, err)\<close>: the nil slice and the error of the first
  failing step, or the accumulated slice and a nil error.
\<close>

definition patch ::
  "(string \<Rightarrow> error + string) \<Rightarrow> 'scope patcher \<Rightarrow> Request \<Rightarrow> Generated list \<times> error option" where
  "patch ReadFile p req =
     (case patch_loop ReadFile p (OutputPath req) (DepthFirstSearch req) ([], Map.empty) of
        Inl err \<Rightarrow> ([], Some err)
      | Inr (patches, protection) \<Rightarrow> (patches, None))"


text \<open>
  What one document contributes to a run in which every collaborator succeeds on it: its
  scope, its full output path and directory, the protection unit of that directory, and
  the units appended for the document itself (the rendered file, then the copy of the
  IDL source when \<^verbatim>\<open>copyIDL\<close> is set).
\<close>

definition docScope :: "'scope patcher \<Rightarrow> Thrift \<Rightarrow> 'scope" where
  "docScope p ast = projr (BuildScope (utils p) ast)"

definition docFull :: "'scope patcher \<Rightarrow> string \<Rightarrow> Thrift \<Rightarrow> string" where
  "docFull p outputPath ast =
     Join [outputPath, projr (GetFilePath (utils p) (docScope p ast) ast)]"

definition docDir :: "'scope patcher \<Rightarrow> string \<Rightarrow> Thrift \<Rightarrow> string" where
  "docDir p outputPath ast = Dir (docFull p outputPath ast)"

definition protectionUnit :: "'scope patcher \<Rightarrow> string \<Rightarrow> Thrift \<Rightarrow> Generated" where
  "protectionUnit p outputPath ast =
     \<lparr>Content = ''package '' @ NamespaceToPackage (utils p) (GoNamespace ast) @ [CHR 0x0A] @
                 kitexUnusedProtection,
      Name = Join [docDir p outputPath ast, ''k-consts.go'']\<rparr>"

definition documentUnits ::
  "(string \<Rightarrow> error + string) \<Rightarrow> 'scope patcher \<Rightarrow> string \<Rightarrow> Thrift \<Rightarrow> Generated list" where
  "documentUnits ReadFile p outputPath ast =
     (let full = docFull p outputPath ast;
          data = \<lparr>AST = ast,
                  PkgName = NamespaceToPackage (utils p) (GoNamespace ast),
                  Imports = filterStdLib (module p)
                              (projr (ResolveImports (utils p) (docScope p ast)))\<rparr>
      in [\<lparr>Content = projr (fileTpl p data),
           Name = Join [fst (Split full), ''k-'' @ snd (Split full)]\<rparr>] @
         (if copyIDL p
          then [\<lparr>Content = projr (ReadFile (Filename ast)),
                 Name = Join [Dir full, Base (Filename ast)]\<rparr>]
          else []))"

text \<open>
  The units of one document, apart: the rendered file at the target path, and the copy
  of the IDL source, present when \<^verbatim>\<open>copyIDL\<close> is set.
\<close>

definition renderedUnit :: "'scope patcher \<Rightarrow> string \<Rightarrow> Thrift \<Rightarrow> Generated" where
  "renderedUnit p outputPath ast =
     (let full = docFull p outputPath ast;
          data = \<lparr>AST = ast,
                  PkgName = NamespaceToPackage (utils p) (GoNamespace ast),
                  Imports = filterStdLib (module p)
                              (projr (ResolveImports (utils p) (docScope p ast)))\<rparr>
      in \<lparr>Content = projr (fileTpl p data),
          Name = Join [fst (Split full), ''k-'' @ snd (Split full)]\<rparr>)"

definition copyUnits ::
  "(string \<Rightarrow> error + string) \<Rightarrow> 'scope patcher \<Rightarrow> string \<Rightarrow> Thrift \<Rightarrow> Generated list" where
  "copyUnits ReadFile p outputPath ast =
     (if copyIDL p
      then [\<lparr>Content = projr (ReadFile (Filename ast)),
             Name = Join [Dir (docFull p outputPath ast), Base (Filename ast)]\<rparr>]
      else [])"

text \<open>
  A list built block by block: for each element its own items, preceded by an item
  introducing its key when no earlier element has that key.
\<close>

definition blocks :: "('a \<Rightarrow> 'k) \<Rightarrow> ('a \<Rightarrow> 'g) \<Rightarrow> ('a \<Rightarrow> 'g list) \<Rightarrow> 'a list \<Rightarrow> 'g list" where
  "blocks key first rest xs =
     concat (map (\<lambda>i. (if key (xs ! i) \<in> set (map key (take i xs)) then [] else [first (xs ! i)]) @
                        rest (xs ! i)) [0..<length xs])"

section \<open>Concrete inputs\<close>

text \<open>
  A classifier in the style of the external \<^verbatim>\<open>IsFixedLengthType\<close>: text is variable-width,
  a type named \<open>cyclic\<close> stands for a malformed type graph, every other name is fixed-width.
\<close>

definition exampleIsFixedLengthType :: "Type \<Rightarrow> error + bool" where
  "exampleIsFixedLengthType t =
     (if TypeName t = ''string'' then Inr False
      else if TypeName t = ''cyclic'' then Inl (External ''cyclic type'')
      else Inr True)"

definition fieldId :: Field where
  "fieldId = \<lparr>FieldName = ''id'', FieldType = \<lparr>TypeName = ''i64''\<rparr>\<rparr>"

definition fieldName :: Field where
  "fieldName = \<lparr>FieldName = ''name'', FieldType = \<lparr>TypeName = ''string''\<rparr>\<rparr>"

definition fieldActive :: Field where
  "fieldActive = \<lparr>FieldName = ''active'', FieldType = \<lparr>TypeName = ''bool''\<rparr>\<rparr>"

definition fieldCyclic :: Field where
  "fieldCyclic = \<lparr>FieldName = ''next'', FieldType = \<lparr>TypeName = ''cyclic''\<rparr>\<rparr>"

text \<open>The import mapping of the spec's scenario, with module root \<open>example.com/mod\<close>.\<close>

definition exampleImports :: import_map where
  "exampleImports =
     [(''std/strings'', ''''),
      (''example.com/mod/gen'', ''gen''),
      (''github.com/apache/thrift/lib/go/thrift'', '''')]"

text \<open>
  Collaborators for concrete runs: every document has a scope except \<open>broken.thrift\<close>; a
  document without a namespace has no output path; the output path of a document is its
  namespace, then the name of the IDL file with the extension \<open>go\<close>; the template renders a
  package clause.
\<close>

definition exampleUtils :: "unit CodeUtils" where
  "exampleUtils =
     \<lparr>BuildScope = (\<lambda>ast. if Filename ast = ''broken.thrift''
                           then Inl (External ''include cycle'') else Inr ()),
      NamespaceToPackage = (\<lambda>namespace. namespace),
      GetFilePath = (\<lambda>scope ast.
         if GoNamespace ast = [] then Inl (External ''no namespace'')
         else Inr (GoNamespace ast @ ''/'' @
                   takeWhile (\<lambda>c. c \<noteq> CHR ''.'') (Filename ast) @ ''.go'')),
      ResolveImports = (\<lambda>scope. Inr exampleImports)\<rparr>"

definition examplePatcher :: "unit patcher" where
  "examplePatcher =
     \<lparr>noFastAPI = False, utils = exampleUtils, module = ''example.com/mod'',
      copyIDL = False,
      fileTpl = (\<lambda>data. Inr (''package '' @ PkgName data))\<rparr>"

definition exampleReadFile :: "string \<Rightarrow> error + string" where
  "exampleReadFile name = Inl (External ''no such file'')"

definition docA :: Thrift where
  "docA = \<lparr>Filename = ''a.thrift'', GoNamespace = ''pkg'', GetStructLike = []\<rparr>"

definition docB :: Thrift where
  "docB = \<lparr>Filename = ''b.thrift'', GoNamespace = ''pkg'', GetStructLike = []\<rparr>"

definition docConsts :: Thrift where
  "docConsts = \<lparr>Filename = ''consts.thrift'', GoNamespace = ''pkg'', GetStructLike = []\<rparr>"

definition docNoPath :: Thrift where
  "docNoPath = \<lparr>Filename = ''nopath.thrift'', GoNamespace = [], GetStructLike = []\<rparr>"


text \<open>
  A name normaliser that reports an error on every name while returning the name with
  its first letter in lower case, and a document with one request struct.
\<close>

definition failingUnexport :: "string \<Rightarrow> string \<times> error option" where
  "failingUnexport n =
     ((case n of [] \<Rightarrow> [] | c # cs \<Rightarrow> (if c = CHR ''B'' then CHR ''b'' else c) # cs),
      Some (External ''invalid name''))"

definition structEchoRequest :: StructLike where
  "structEchoRequest =
     \<lparr>StructName = ''EchoRequest'',
      Fields = [\<lparr>FieldName = ''Message'', FieldType = \<lparr>TypeName = ''string''\<rparr>\<rparr>,
                \<lparr>FieldName = ''Base'', FieldType = \<lparr>TypeName = ''base.Base''\<rparr>\<rparr>]\<rparr>"

definition structEchoResponse :: StructLike where
  "structEchoResponse =
     \<lparr>StructName = ''EchoResponse'',
      Fields = [\<lparr>FieldName = ''Base'', FieldType = \<lparr>TypeName = ''base.BaseResp''\<rparr>\<rparr>,
                \<lparr>FieldName = ''BaseResp'', FieldType = \<lparr>TypeName = ''base.BaseResp''\<rparr>\<rparr>]\<rparr>"

definition docEcho :: Thrift where
  "docEcho = \<lparr>Filename = ''echo.thrift'', GoNamespace = ''echo'',
              GetStructLike = [structEchoRequest, structEchoResponse]\<rparr>"

text \<open>
  A run with copying on: every source file can be read, and one of the IDL files is
  named \<open>k-a.go\<close>.
\<close>

definition exampleSources :: "string \<Rightarrow> error + string" where
  "exampleSources name = Inr (''// source of '' @ name)"

definition copyingPatcher :: "unit patcher" where
  "copyingPatcher =
     \<lparr>noFastAPI = False, utils = exampleUtils, module = ''example.com/mod'',
      copyIDL = True,
      fileTpl = (\<lambda>data. Inr (''package '' @ PkgName data))\<rparr>"

definition docKA :: Thrift where
  "docKA = \<lparr>Filename = ''k-a.go'', GoNamespace = ''pkg'', GetStructLike = []\<rparr>"

section \<open>Field reordering\<close>

lemma classifyFields_ok:
  "\<forall>f\<in>set flds. \<exists>ok. c (FieldType f) = Inr ok \<Longrightarrow>
   classifyFields c flds m =
     Inr (\<lambda>k. if k \<in> set flds then Some (c (FieldType k) = Inr True) else m k)"
proof (induction flds arbitrary: m)
  case Nil
  then show ?case by simp
next
  case (Cons f flds)
  from Cons.prems obtain ok where ok: "c (FieldType f) = Inr ok" by auto
  have rest: "\<forall>f\<in>set flds. \<exists>ok. c (FieldType f) = Inr ok" using Cons.prems by simp
  show ?case
    using ok by (auto simp: Cons.IH[OF rest])
qed

lemma classifyFields_err:
  assumes "\<forall>h\<in>set pre. \<exists>ok. c (FieldType h) = Inr ok" and "c (FieldType g) = Inl e"
  shows "classifyFields c (pre @ g # post) m = Inl e"
  using assms by (induction pre arbitrary: m) auto

lemma first_failure:
  "\<exists>f\<in>set flds. \<exists>e. c (FieldType f) = Inl e \<Longrightarrow>
   \<exists>pre g post e'. flds = pre @ g # post \<and>
      (\<forall>h\<in>set pre. \<exists>ok. c (FieldType h) = Inr ok) \<and> c (FieldType g) = Inl e'"
proof (induction flds)
  case Nil
  then show ?case by simp
next
  case (Cons f flds)
  show ?case
  proof (cases "c (FieldType f)")
    case (Inl e)
    then have "f # flds = [] @ f # flds \<and>
        (\<forall>h\<in>set []. \<exists>ok. c (FieldType h) = Inr ok) \<and> c (FieldType f) = Inl e"
      by simp
    then show ?thesis by blast
  next
    case (Inr ok)
    with Cons.prems have "\<exists>f\<in>set flds. \<exists>e. c (FieldType f) = Inl e" by auto
    from Cons.IH[OF this] obtain pre g post e' where
      h: "flds = pre @ g # post" "\<forall>h\<in>set pre. \<exists>ok. c (FieldType h) = Inr ok"
         "c (FieldType g) = Inl e'"
      by blast
    have "f # flds = (f # pre) @ g # post \<and>
        (\<forall>h\<in>set (f # pre). \<exists>ok. c (FieldType h) = Inr ok) \<and> c (FieldType g) = Inl e'"
      using h Inr by simp
    then show ?thesis by blast
  qed
qed

lemma appendWhere_filter: "appendWhere p flds acc = acc @ filter p flds"
  unfolding appendWhere_def by (induction flds arbitrary: acc) auto

lemma reorder_ok:
  assumes "\<forall>f\<in>set flds. \<exists>ok. c (FieldType f) = Inr ok"
  shows "reorderStructFields c flds =
    (filter (\<lambda>f. c (FieldType f) = Inr True) flds @
     filter (\<lambda>f. c (FieldType f) = Inr False) flds, None)"
proof -
  let ?m = "\<lambda>k. if k \<in> set flds then Some (c (FieldType k) = Inr True) else None"
  have 1: "filter (\<lambda>v. lookupBool ?m v) flds = filter (\<lambda>f. c (FieldType f) = Inr True) flds"
    by (rule filter_cong) (auto simp: lookupBool_def)
  have 2: "filter (\<lambda>v. \<not> lookupBool ?m v) flds = filter (\<lambda>f. c (FieldType f) = Inr False) flds"
    using assms by (intro filter_cong) (auto simp: lookupBool_def)
  show ?thesis
    unfolding reorderStructFields_def classifyFields_ok[OF assms]
    by (simp add: appendWhere_filter 1 2)
qed

lemma reorder_err:
  assumes "\<exists>f\<in>set flds. \<exists>e. c (FieldType f) = Inl e"
  shows "\<exists>pre g post e'.
           flds = pre @ g # post \<and>
           (\<forall>h\<in>set pre. \<exists>ok. c (FieldType h) = Inr ok) \<and>
           c (FieldType g) = Inl e' \<and>
           reorderStructFields c flds = ([], Some e')"
proof -
  from first_failure[OF assms] obtain pre g post e' where
    h: "flds = pre @ g # post" "\<forall>h\<in>set pre. \<exists>ok. c (FieldType h) = Inr ok"
       "c (FieldType g) = Inl e'"
    by blast
  have "classifyFields c flds Map.empty = Inl e'"
    unfolding h(1) by (rule classifyFields_err[OF h(2,3)])
  then have "reorderStructFields c flds = ([], Some e')"
    by (simp add: reorderStructFields_def)
  with h show ?thesis by blast
qed

lemma reorder_success_iff:
  "snd (reorderStructFields c flds) = None \<longleftrightarrow>
     (\<forall>f\<in>set flds. \<exists>ok. c (FieldType f) = Inr ok)"
proof
  assume ok: "snd (reorderStructFields c flds) = None"
  show "\<forall>f\<in>set flds. \<exists>ok. c (FieldType f) = Inr ok"
  proof (rule ccontr)
    assume "\<not> ?thesis"
    then have "\<exists>f\<in>set flds. \<exists>e. c (FieldType f) = Inl e"
      by (metis sum.exhaust)
    from reorder_err[OF this] ok show False by auto
  qed
next
  assume "\<forall>f\<in>set flds. \<exists>ok. c (FieldType f) = Inr ok"
  from reorder_ok[OF this] show "snd (reorderStructFields c flds) = None" by simp
qed

text \<open>
  Claim C4. When \<^verbatim>\<open>IsFixedLengthType\<close> succeeds on every field, \<^verbatim>\<open>reorderStructFields\<close>
  returns, with a nil error, the fields classified fixed-width in their original order
  followed by the fields classified variable-width in their original order: a stable
  partition of its input.
\<close>

theorem reorderStructFields_stable_partition:
  assumes "\<forall>f\<in>set flds. \<exists>ok. IsFixedLengthType (FieldType f) = Inr ok"
  shows "reorderStructFields IsFixedLengthType flds =
    (filter (\<lambda>f. IsFixedLengthType (FieldType f) = Inr True) flds @
     filter (\<lambda>f. IsFixedLengthType (FieldType f) = Inr False) flds, None)"
  by (rule reorder_ok[OF assms])

theorem reorderStructFields_stable_partition_witness:
  "reorderStructFields exampleIsFixedLengthType [fieldId, fieldName, fieldActive] =
     ([fieldId, fieldActive, fieldName], None)"
proof -
  have h: "\<forall>f\<in>set [fieldId, fieldName, fieldActive].
       \<exists>ok. exampleIsFixedLengthType (FieldType f) = Inr ok"
    by (auto simp: exampleIsFixedLengthType_def fieldId_def fieldName_def fieldActive_def)
  have t: "filter (\<lambda>f. exampleIsFixedLengthType (FieldType f) = Inr True)
             [fieldId, fieldName, fieldActive] = [fieldId, fieldActive]"
    by (simp add: exampleIsFixedLengthType_def fieldId_def fieldName_def fieldActive_def)
  have f: "filter (\<lambda>f. exampleIsFixedLengthType (FieldType f) = Inr False)
             [fieldId, fieldName, fieldActive] = [fieldName]"
    by (simp add: exampleIsFixedLengthType_def fieldId_def fieldName_def fieldActive_def)
  show ?thesis
    using reorderStructFields_stable_partition[OF h] unfolding t f by simp
qed

text \<open>
  Claim C7. Reordering is idempotent: when \<^verbatim>\<open>reorderStructFields\<close> succeeds on a field
  sequence, applying it (with the same classifier) to its own output succeeds and
  returns that output unchanged.
\<close>

theorem reorderStructFields_idempotent:
  assumes "reorderStructFields IsFixedLengthType flds = (out, None)"
  shows "reorderStructFields IsFixedLengthType out = (out, None)"
proof -
  let ?c = IsFixedLengthType
  have ok: "\<forall>f\<in>set flds. \<exists>ok. ?c (FieldType f) = Inr ok"
    using assms reorder_success_iff[of ?c flds] by simp
  have out: "out = filter (\<lambda>f. ?c (FieldType f) = Inr True) flds @
                   filter (\<lambda>f. ?c (FieldType f) = Inr False) flds"
    using reorder_ok[OF ok] assms by simp
  have ok': "\<forall>f\<in>set out. \<exists>ok. ?c (FieldType f) = Inr ok"
    using ok unfolding out by auto
  have "reorderStructFields ?c out =
     (filter (\<lambda>f. ?c (FieldType f) = Inr True) out @
      filter (\<lambda>f. ?c (FieldType f) = Inr False) out, None)"
    by (rule reorder_ok[OF ok'])
  also have "filter (\<lambda>f. ?c (FieldType f) = Inr True) out =
             filter (\<lambda>f. ?c (FieldType f) = Inr True) flds"
    unfolding out by (simp add: filter_empty_conv)
  also have "filter (\<lambda>f. ?c (FieldType f) = Inr False) out =
             filter (\<lambda>f. ?c (FieldType f) = Inr False) flds"
    unfolding out by (simp add: filter_empty_conv)
  finally show ?thesis unfolding out .
qed

theorem reorderStructFields_idempotent_witness:
  "reorderStructFields exampleIsFixedLengthType [fieldId, fieldName, fieldActive] =
     ([fieldId, fieldActive, fieldName], None) \<and>
   reorderStructFields exampleIsFixedLengthType [fieldId, fieldActive, fieldName] =
     ([fieldId, fieldActive, fieldName], None)"
proof -
  have h: "reorderStructFields exampleIsFixedLengthType [fieldId, fieldName, fieldActive] =
     ([fieldId, fieldActive, fieldName], None)"
    by (simp add: reorderStructFields_def appendWhere_def lookupBool_def
        exampleIsFixedLengthType_def fieldId_def fieldName_def fieldActive_def)
  show ?thesis
    using h reorderStructFields_idempotent[OF h] by simp
qed

text \<open>
  Claim C8. If \<^verbatim>\<open>IsFixedLengthType\<close> returns an error for some field, then
  \<^verbatim>\<open>reorderStructFields\<close> fails as a whole: it returns a nil field sequence together with
  an error that is, unchanged, the classifier's error for the first field (in sequence
  order) on which the classifier fails.
\<close>

theorem reorderStructFields_error:
  assumes "f \<in> set flds" and "IsFixedLengthType (FieldType f) = Inl e"
  shows "\<exists>pre g post e'.
           flds = pre @ g # post \<and>
           (\<forall>h\<in>set pre. \<exists>ok. IsFixedLengthType (FieldType h) = Inr ok) \<and>
           IsFixedLengthType (FieldType g) = Inl e' \<and>
           reorderStructFields IsFixedLengthType flds = ([], Some e')"
proof -
  have "\<exists>f\<in>set flds. \<exists>e. IsFixedLengthType (FieldType f) = Inl e"
    using assms by blast
  then show ?thesis by (rule reorder_err)
qed

theorem reorderStructFields_error_witness:
  "fieldCyclic \<in> set [fieldId, fieldCyclic, fieldName] \<and>
   exampleIsFixedLengthType (FieldType fieldCyclic) = Inl (External ''cyclic type'') \<and>
   reorderStructFields exampleIsFixedLengthType [fieldId, fieldCyclic, fieldName] =
     ([], Some (External ''cyclic type''))"
proof -
  have h1: "fieldCyclic \<in> set [fieldId, fieldCyclic, fieldName]" by simp
  have h2: "exampleIsFixedLengthType (FieldType fieldCyclic) = Inl (External ''cyclic type'')"
    by (simp add: exampleIsFixedLengthType_def fieldCyclic_def)
  from reorderStructFields_error[of fieldCyclic "[fieldId, fieldCyclic, fieldName]"
      exampleIsFixedLengthType "External ''cyclic type''", OF h1 h2] obtain pre g post e' where
    g: "[fieldId, fieldCyclic, fieldName] = pre @ g # post"
       "exampleIsFixedLengthType (FieldType g) = Inl e'"
       "reorderStructFields exampleIsFixedLengthType [fieldId, fieldCyclic, fieldName] =
          ([], Some e')"
    by blast
  from g(1) have "g \<in> set [fieldId, fieldCyclic, fieldName]"
    by (metis in_set_conv_decomp)
  with g(2) have "e' = External ''cyclic type''"
    by (auto simp: exampleIsFixedLengthType_def fieldId_def fieldCyclic_def fieldName_def
        split: if_splits)
  with g(3) h1 h2 show ?thesis by simp
qed

section \<open>Envelope extraction\<close>

lemma filterBase_fields:
  "fold (filterBase_field U s) fs (req, res) =
     (req @ replicate (length (filter (\<lambda>f. fst (U (FieldName f)) = ''base'' \<and>
              TypeName (FieldType f) = ''base.Base'') fs)) s,
      res @ replicate (length (filter (\<lambda>f. fst (U (FieldName f)) = ''baseResp'' \<and>
              TypeName (FieldType f) = ''base.BaseResp'') fs)) s)"
proof (induction fs arbitrary: req res)
  case Nil
  then show ?case by simp
next
  case (Cons f fs)
  have step: "filterBase_field U s f (req, res) =
      (if fst (U (FieldName f)) = ''base'' \<and> TypeName (FieldType f) = ''base.Base''
       then req @ [s] else req,
       if fst (U (FieldName f)) = ''baseResp'' \<and> TypeName (FieldType f) = ''base.BaseResp''
       then res @ [s] else res)"
    by (simp add: filterBase_field_def Let_def)
  show ?case
    by (simp add: step Cons.IH replicate_app_Cons_same)
qed

lemma filterBase_structs:
  "fold (\<lambda>s acc. fold (filterBase_field U s) (Fields s) acc) ss (req, res) =
     (req @ concat (map (\<lambda>s. replicate (length (filter (\<lambda>f. fst (U (FieldName f)) = ''base'' \<and>
              TypeName (FieldType f) = ''base.Base'') (Fields s))) s) ss),
      res @ concat (map (\<lambda>s. replicate (length (filter (\<lambda>f. fst (U (FieldName f)) = ''baseResp'' \<and>
              TypeName (FieldType f) = ''base.BaseResp'') (Fields s))) s) ss))"
proof (induction ss arbitrary: req res)
  case Nil
  then show ?case by simp
next
  case (Cons s ss)
  show ?case by (simp add: filterBase_fields Cons.IH)
qed

lemma filterBase_field_fst:
  "filterBase_field (\<lambda>n. (nm n, e1 n)) s f = filterBase_field (\<lambda>n. (nm n, e2 n)) s f"
  by (simp add: filterBase_field_def)

text \<open>
  Claim C6. \<^verbatim>\<open>filterBase\<close> lists, in declaration order, every struct-like once per field
  whose unexported name equals \<open>base\<close> and whose type name equals \<open>base.Base\<close> in
  \<open>Requests\<close>, and once per field whose unexported name equals \<open>baseResp\<close> and whose type
  name equals \<open>base.BaseResp\<close> in \<open>Responses\<close>. The tests are equalities of whole strings;
  a struct-like with several qualifying fields is listed that many times, and a field
  named \<open>base\<close> of another type adds nothing to \<open>Requests\<close>.
\<close>

theorem filterBase_exact:
  "Requests (filterBase Unexport ast) =
     concat (map (\<lambda>s. replicate (length (filter (\<lambda>f. fst (Unexport (FieldName f)) = ''base'' \<and>
        TypeName (FieldType f) = ''base.Base'') (Fields s))) s) (GetStructLike ast))
   \<and> Responses (filterBase Unexport ast) =
     concat (map (\<lambda>s. replicate (length (filter (\<lambda>f. fst (Unexport (FieldName f)) = ''baseResp'' \<and>
        TypeName (FieldType f) = ''base.BaseResp'') (Fields s))) s) (GetStructLike ast))"
  unfolding filterBase_def filterBase_structs by simp

text \<open>
  Claim C10. \<^verbatim>\<open>filterBase\<close> has no error result and returns its two sequences for every
  document and every behaviour of \<^verbatim>\<open>Unexport\<close>. The error that \<^verbatim>\<open>Unexport\<close> returns is
  discarded and the name returned with it is the one compared: for a normaliser that
  returns the name \<open>name n\<close> and the error \<open>err n\<close>, \<open>Requests\<close> and \<open>Responses\<close> list each
  struct-like once per field whose returned name and type name pass the two equalities,
  whatever \<open>err\<close> is, and the result is the one obtained when no error is reported. With
  a normaliser that reports an error on every name, the fields \<open>Base\<close> of type \<open>base.Base\<close>
  and \<open>BaseResp\<close> of type \<open>base.BaseResp\<close> are still matched.
\<close>

theorem filterBase_compares_returned_name:
  "Requests (filterBase (\<lambda>n. (name n, err n)) ast) =
     concat (map (\<lambda>s. replicate (length (filter (\<lambda>f. name (FieldName f) = ''base'' \<and>
        TypeName (FieldType f) = ''base.Base'') (Fields s))) s) (GetStructLike ast)) \<and>
   Responses (filterBase (\<lambda>n. (name n, err n)) ast) =
     concat (map (\<lambda>s. replicate (length (filter (\<lambda>f. name (FieldName f) = ''baseResp'' \<and>
        TypeName (FieldType f) = ''base.BaseResp'') (Fields s))) s) (GetStructLike ast)) \<and>
   filterBase (\<lambda>n. (name n, err n)) ast = filterBase (\<lambda>n. (name n, None)) ast \<and>
   snd (failingUnexport ''Base'') = Some (External ''invalid name'') \<and>
   snd (failingUnexport ''BaseResp'') = Some (External ''invalid name'') \<and>
   filterBase failingUnexport docEcho =
     \<lparr>Requests = [structEchoRequest], Responses = [structEchoResponse]\<rparr>"
proof -
  have "filterBase failingUnexport docEcho =
     \<lparr>Requests = [structEchoRequest], Responses = [structEchoResponse]\<rparr>"
    by (simp add: filterBase_def filterBase_field_def failingUnexport_def docEcho_def Let_def
        structEchoRequest_def structEchoResponse_def)
  moreover have "filterBase (\<lambda>n. (name n, err n)) ast = filterBase (\<lambda>n. (name n, None)) ast"
    unfolding filterBase_def filterBase_field_fst[of name err _ _ "\<lambda>_. None"] ..
  ultimately show ?thesis
    unfolding filterBase_def filterBase_structs
    by (simp add: failingUnexport_def)
qed

section \<open>The type-name table\<close>

text \<open>
  Claim C9. The helper \<^verbatim>\<open>TypeIDToGoType\<close> is total: the table has exactly the eight keys
  Bool, Byte, I16, I32, I64, Double, String and Binary, which it maps to bool, int8,
  int16, int32, int64, float64, string and []byte, and every other string gives the
  empty string.
\<close>

theorem TypeIDToGoType_total:
  "TypeIDToGoType ''Bool'' = ''bool'' \<and>
   TypeIDToGoType ''Byte'' = ''int8'' \<and>
   TypeIDToGoType ''I16'' = ''int16'' \<and>
   TypeIDToGoType ''I32'' = ''int32'' \<and>
   TypeIDToGoType ''I64'' = ''int64'' \<and>
   TypeIDToGoType ''Double'' = ''float64'' \<and>
   TypeIDToGoType ''String'' = ''string'' \<and>
   TypeIDToGoType ''Binary'' = ''[]byte'' \<and>
   dom typeIDToGoType =
     {''Bool'', ''Byte'', ''I16'', ''I32'', ''I64'', ''Double'', ''String'', ''Binary''} \<and>
   (t \<notin> {''Bool'', ''Byte'', ''I16'', ''I32'', ''I64'', ''Double'', ''String'', ''Binary''}
      \<longrightarrow> TypeIDToGoType t = '''')"
proof -
  have "dom typeIDToGoType =
     {''Bool'', ''Byte'', ''I16'', ''I32'', ''I64'', ''Double'', ''String'', ''Binary''}"
    unfolding typeIDToGoType_def dom_map_of_conv_image_fst by simp
  then show ?thesis
    by (simp add: TypeIDToGoType_def typeIDToGoType_def)
qed

theorem TypeIDToGoType_total_witness:
  "''Struct'' \<notin> {''Bool'', ''Byte'', ''I16'', ''I32'', ''I64'', ''Double'', ''String'', ''Binary''}
   \<and> TypeIDToGoType ''Struct'' = '''' \<and> TypeIDToGoType ''I64'' = ''int64''"
  using TypeIDToGoType_total[of "''Struct''"] by simp

section \<open>The import filter\<close>

lemma delete_twice: "delete (delete m k) k = delete m k"
  by (simp add: delete_def split_def)

lemma delete_absent: "k \<notin> fst ` set m \<Longrightarrow> delete m k = m"
  unfolding delete_def by (induction m) auto

lemma filterStdLib_body_survives:
  "filterStdLib_body (root @ ''/'') pth m = (if survives root pth then m else delete m pth)"
  by (simp add: filterStdLib_body_def survives_def Let_def delete_twice)

lemma filterStdLib_step:
  "(if pth \<in> fst ` set m then filterStdLib_body (root @ ''/'') pth m else m)
   = (if survives root pth then m else delete m pth)"
  by (simp add: filterStdLib_body_survives delete_absent)

lemma fold_delete:
  "fold (\<lambda>pth m. if survives root pth then m else delete m pth) ks m
   = filter (\<lambda>(k, v). k \<in> set ks \<longrightarrow> survives root k) m"
proof (induction ks arbitrary: m)
  case Nil
  then show ?case by simp
next
  case (Cons k ks)
  show ?case
  proof (cases "survives root k")
    case True
    then show ?thesis
      by (auto simp: Cons.IH intro!: filter_cong)
  next
    case False
    then show ?thesis
      by (auto simp: Cons.IH delete_def split_def intro!: filter_cong)
  qed
qed

lemma filterStdLib_filter:
  "filterStdLib root imports = filter (\<lambda>(pth, alias). survives root pth) imports"
proof -
  have "filterStdLib root imports =
      fold (\<lambda>pth m. if survives root pth then m else delete m pth) (map fst imports) imports"
    unfolding filterStdLib_def Let_def filterStdLib_step ..
  also have "\<dots> =
      filter (\<lambda>(k, v). k \<in> set (map fst imports) \<longrightarrow> survives root k) imports"
    by (rule fold_delete)
  also have "\<dots> = filter (\<lambda>(pth, alias). survives root pth) imports"
    by (rule filter_cong) force+
  finally show ?thesis .
qed

lemma Contains_dot: "Contains s ''.'' \<longleftrightarrow> CHR ''.'' \<in> set s"
  by (induction s) (auto simp: HasPrefix_def)

text \<open>
  Claim C1, as stated, fails: the loop skips (\<^verbatim>\<open>continue\<close>) every path under the module
  prefix, so such an entry stays. In the scenario, \<open>example.com/mod/gen\<close> starts with the
  module root and is still in the mapping after the filter, which is therefore not empty.
\<close>

theorem filterStdLib_keeps_module_entry:
  "(''example.com/mod/gen'', ''gen'') \<in> set (filterStdLib ''example.com/mod'' exampleImports) \<and>
   HasPrefix ''example.com/mod/gen'' ''example.com/mod'' \<and>
   HasPrefix ''example.com/mod/gen'' (''example.com/mod'' @ ''/'') \<and>
   filterStdLib ''example.com/mod'' exampleImports \<noteq> []"
  by (simp add: filterStdLib_def filterStdLib_body_def exampleImports_def HasPrefix_def
      delete_def)

text \<open>
  Claim C1, amended. After \<^verbatim>\<open>filterStdLib\<close> the mapping holds exactly the entries of the
  input, aliases and order unchanged, whose path starts with the module root followed
  by \<open>/\<close>, or whose path is not \<open>github.com/apache/thrift/lib/go/thrift\<close>, does not start
  with \<open>github.com/cloudwego/thriftgo\<close> and contains a dot. So an entry outside the module
  prefix survives only if it is none of the three removed kinds, and every entry under
  the module prefix survives.
\<close>

theorem filterStdLib_closure:
  "filterStdLib root imports =
     filter (\<lambda>(pth, alias).
        HasPrefix pth (root @ ''/'') \<or>
        (pth \<noteq> ''github.com/apache/thrift/lib/go/thrift'' \<and>
         \<not> HasPrefix pth ''github.com/cloudwego/thriftgo'' \<and>
         CHR ''.'' \<in> set pth)) imports"
  unfolding filterStdLib_filter survives_def Contains_dot ..

text \<open>The scenario of the spec filters to the single entry under the module root.\<close>

theorem filterStdLib_closure_witness:
  "filterStdLib ''example.com/mod'' exampleImports = [(''example.com/mod/gen'', ''gen'')]"
  unfolding filterStdLib_closure[of "''example.com/mod''" exampleImports]
  by (simp add: exampleImports_def HasPrefix_def)

section \<open>Cleaned paths\<close>

text \<open>The path functions on entries of the Go library's own test tables.\<close>

lemma Clean_examples:
  "Clean [] = ''.''"
  "Clean ''abc/def/'' = ''abc/def''"
  "Clean ''abc//def//ghi'' = ''abc/def/ghi''"
  "Clean ''/./abc/def'' = ''/abc/def''"
  "Clean ''abc/def/../ghi/../jkl'' = ''abc/jkl''"
  "Clean ''abc/def/../..'' = ''.''"
  "Clean ''/abc/def/../../..'' = ''/''"
  "Clean ''abc/def/../../../ghi/jkl/../../../mno'' = ''../../mno''"
  "Clean ''/../abc'' = ''/abc''"
  "Clean ''abc/../../././../def'' = ''../../def''"
  "Clean ''//abc//'' = ''/abc''"
  by (simp_all add: Clean_def cleanElement_def)

lemma Split_Dir_Base_Join_examples:
  "Split ''a/b'' = (''a/'', ''b'')"
  "Split ''a/b/'' = (''a/b/'', [])"
  "Split ''a'' = ([], ''a'')"
  "Dir ''/foo'' = ''/''"
  "Dir ''a/b/c.x'' = ''a/b''"
  "Dir ''abc'' = ''.''"
  "Base ''a/b/c.x'' = ''c.x''"
  "Base ''x/'' = ''x''"
  "Base ''////'' = ''/''"
  "Join [[], ''b''] = ''b''"
  "Join [''/a/'', ''b''] = ''/a/b''"
  "Join [''a'', ''..'', ''b''] = ''b''"
  "Join [[], []] = []"
  by (simp_all add: Clean_def cleanElement_def Split_def Dir_def Base_def)

lemma elements_nonempty: "elements p \<noteq> []"
  by (induction p) (auto split: list.splits)

lemma elements_append_slash: "elements (p @ CHR ''/'' # q) = elements p @ elements q"
proof (induction p)
  case Nil
  then show ?case by simp
next
  case (Cons c p)
  then show ?case
    using elements_nonempty[of p] by (auto split: list.splits)
qed

lemma elements_slash_free: "CHR ''/'' \<notin> set n \<Longrightarrow> elements n = [n]"
  by (induction n) auto

lemma elements_no_slash: "e \<in> set (elements p) \<Longrightarrow> CHR ''/'' \<notin> set e"
proof (induction p arbitrary: e)
  case Nil
  then show ?case by simp
next
  case (Cons c p)
  then show ?case
    by (auto split: if_splits list.splits)
qed

lemma strings_Join_snoc:
  "strings_Join (es @ [n]) sep = (if es = [] then n else strings_Join es sep @ sep @ n)"
  by (induction es sep rule: strings_Join.induct) auto

lemma strings_Join_Cons:
  "strings_Join (e # es) sep = (if es = [] then e else e @ sep @ strings_Join es sep)"
  by (cases es) auto

lemma elements_strings_Join:
  "es \<noteq> [] \<Longrightarrow> \<forall>e\<in>set es. CHR ''/'' \<notin> set e \<Longrightarrow> elements (strings_Join es ''/'') = es"
proof (induction es)
  case Nil
  then show ?case by simp
next
  case (Cons e es)
  show ?case
  proof (cases "es = []")
    case True
    with Cons.prems show ?thesis by (simp add: elements_slash_free)
  next
    case False
    with Cons show ?thesis
      by (simp add: strings_Join_Cons elements_append_slash elements_slash_free)
  qed
qed

lemma Clean_render:
  "p \<noteq> [] \<Longrightarrow> Clean p = render (hd p = CHR ''/'') (fold (cleanElement (hd p = CHR ''/'')) (elements p) (0, []))"
  by (simp add: Clean_def render_def Let_def split_def)

lemma fold_real:
  "\<forall>e\<in>set ns. realName e \<Longrightarrow> fold (cleanElement r) ns (dd, out) = (dd, rev ns @ out)"
  by (induction ns arbitrary: out) (auto simp: cleanElement_def realName_def)

lemma fold_dotdot:
  "fold (cleanElement r) (replicate k ''..'') (dd, []) = (if r then dd else dd + k, [])"
proof (induction k arbitrary: dd)
  case 0
  then show ?case by simp
next
  case (Suc k)
  have "cleanElement r ''..'' (dd, []) = (if r then dd else dd + 1, [])"
    by (simp add: cleanElement_def)
  then show ?case
    using Suc.IH[of "if r then dd else dd + 1"] by (simp del: fold_replicate)
qed

lemma cleanElement_skip: "e = [] \<or> e = ''.'' \<Longrightarrow> cleanElement r e st = st"
  by (cases st) (auto simp: cleanElement_def)

lemma cleanElement_up:
  "cleanElement r ''..'' (dd, out) =
     (case out of _ # out' \<Rightarrow> (dd, out') | [] \<Rightarrow> if \<not> r then (dd + 1, out) else (dd, out))"
  by (simp add: cleanElement_def)

lemma cleanElement_name:
  "e \<noteq> [] \<Longrightarrow> e \<noteq> ''.'' \<Longrightarrow> e \<noteq> ''..'' \<Longrightarrow> cleanElement r e (dd, out) = (dd, e # out)"
  by (simp add: cleanElement_def)

lemma cleanElement_inv:
  assumes "cleanElement r e (dd, out) = (dd', out')"
    and "CHR ''/'' \<notin> set e" and "\<forall>x\<in>set out. realName x" and "r \<longrightarrow> dd = 0"
  shows "(\<forall>x\<in>set out'. realName x) \<and> (r \<longrightarrow> dd' = 0)"
proof -
  consider (skip) "e = [] \<or> e = ''.''" | (up) "e = ''..''"
    | (name) "e \<noteq> []" "e \<noteq> ''.''" "e \<noteq> ''..''"
    by blast
  then show ?thesis
  proof cases
    case skip
    from cleanElement_skip[OF skip] assms show ?thesis by simp
  next
    case up
    show ?thesis
    proof (cases out)
      case Nil
      with assms(1,4) up show ?thesis
        by (simp add: cleanElement_up split: if_splits)
    next
      case (Cons x xs)
      with assms(1,3,4) up show ?thesis
        by (simp add: cleanElement_up)
    qed
  next
    case name
    then have "realName e" using assms(2) by (simp add: realName_def)
    moreover have "dd' = dd" "out' = e # out"
      using assms(1) cleanElement_name[OF name] by simp_all
    ultimately show ?thesis using assms(3,4) by simp
  qed
qed

lemma fold_inv:
  assumes "fold (cleanElement r) es (dd, out) = (dd', out')"
    and "\<forall>e\<in>set es. CHR ''/'' \<notin> set e" and "\<forall>x\<in>set out. realName x" and "r \<longrightarrow> dd = 0"
  shows "(\<forall>x\<in>set out'. realName x) \<and> (r \<longrightarrow> dd' = 0)"
  using assms
proof (induction es arbitrary: dd out)
  case Nil
  then show ?case by simp
next
  case (Cons e es)
  obtain d1 o1 where s1: "cleanElement r e (dd, out) = (d1, o1)" by (cases "cleanElement r e (dd, out)")
  have i1: "(\<forall>x\<in>set o1. realName x) \<and> (r \<longrightarrow> d1 = 0)"
    using cleanElement_inv[OF s1] Cons.prems by simp
  show ?case
    using Cons.IH[of d1 o1] Cons.prems i1 s1 by simp
qed

lemma Clean_inv:
  assumes "fold (cleanElement r) (elements p) (0, []) = (dd, out)"
  shows "(\<forall>x\<in>set out. realName x) \<and> (r \<longrightarrow> dd = 0)"
  using fold_inv[OF assms] elements_no_slash by auto

lemma render_nonempty: "render r st \<noteq> []"
  by (simp add: render_def Let_def)

lemma strings_Join_nonempty: "es \<noteq> [] \<Longrightarrow> hd es \<noteq> [] \<Longrightarrow> strings_Join es sep \<noteq> []"
  by (cases es) (auto simp: strings_Join_Cons)

lemma hd_strings_Join: "es \<noteq> [] \<Longrightarrow> hd es \<noteq> [] \<Longrightarrow> hd (strings_Join es sep) = hd (hd es)"
  by (cases es) (auto simp: strings_Join_Cons)

lemma state_elements:
  assumes "\<forall>x\<in>set out. realName x"
  shows "\<forall>e\<in>set (replicate dd ''..'' @ rev out). e \<noteq> [] \<and> e \<noteq> ''.'' \<and> CHR ''/'' \<notin> set e"
proof
  fix e
  assume "e \<in> set (replicate dd ''..'' @ rev out)"
  then consider "e = ''..''" | "e \<in> set out" by auto
  then show "e \<noteq> [] \<and> e \<noteq> ''.'' \<and> CHR ''/'' \<notin> set e"
  proof cases
    case 1
    then show ?thesis by simp
  next
    case 2
    with assms have "realName e" by blast
    then show ?thesis unfolding realName_def by blast
  qed
qed

lemma fold_state:
  assumes "\<forall>x\<in>set out. realName x" and "r \<longrightarrow> dd = 0"
  shows "fold (cleanElement r) (replicate dd ''..'' @ rev out) (0, []) = (dd, out)"
proof -
  have "fold (cleanElement r) (replicate dd ''..'') (0, []) = (dd, [])"
    unfolding fold_dotdot using assms(2) by simp
  moreover have "fold (cleanElement r) (rev out) (dd, []) = (dd, out)"
    using assms(1) by (simp add: fold_real)
  ultimately show ?thesis by (simp del: fold_replicate)
qed

lemma Clean_render_state:
  assumes "\<forall>x\<in>set out. realName x" and "r \<longrightarrow> dd = 0"
  shows "Clean (render r (dd, out)) = render r (dd, out)"
proof -
  let ?es = "replicate dd ''..'' @ rev out"
  have es: "\<forall>e\<in>set ?es. e \<noteq> [] \<and> e \<noteq> ''.'' \<and> CHR ''/'' \<notin> set e"
    by (rule state_elements[OF assms(1)])
  show ?thesis
  proof (cases "?es = []")
    case True
    then have "render r (dd, out) = (if r then ''/'' else ''.'')"
      by (simp add: render_def)
    moreover have "Clean ''/'' = ''/''" by (simp add: Clean_def cleanElement_def)
    moreover have "Clean ''.'' = ''.''" by (simp add: Clean_def cleanElement_def)
    ultimately show ?thesis by simp
  next
    case False
    let ?body = "strings_Join ?es ''/''"
    from False es have hdne: "hd ?es \<noteq> []" by (metis hd_in_set)
    have bne: "?body \<noteq> []" by (rule strings_Join_nonempty[OF False hdne])
    have hdb: "hd ?body \<noteq> CHR ''/''"
    proof -
      have "hd ?body = hd (hd ?es)" by (rule hd_strings_Join[OF False hdne])
      moreover have "hd (hd ?es) \<in> set (hd ?es)" using hdne by simp
      moreover have "CHR ''/'' \<notin> set (hd ?es)" using False es by (metis hd_in_set)
      ultimately show ?thesis by metis
    qed
    have el: "elements ?body = ?es"
      by (rule elements_strings_Join[OF False]) (use es in blast)
    have st: "fold (cleanElement r) ?es (0, []) = (dd, out)"
      by (rule fold_state[OF assms])
    show ?thesis
    proof (cases r)
      case True
      have c: "render r (dd, out) = CHR ''/'' # ?body"
        using True by (simp add: render_def Let_def)
      have "Clean (CHR ''/'' # ?body) = render True (fold (cleanElement True) (elements (CHR ''/'' # ?body)) (0, []))"
        using Clean_render[of "CHR ''/'' # ?body"] by simp
      also have "elements (CHR ''/'' # ?body) = [] # ?es" using el by simp
      also have "fold (cleanElement True) ([] # ?es) (0, []) = (dd, out)"
        using st True by (simp add: cleanElement_skip)
      finally show ?thesis using c True by simp
    next
      case False
      have c: "render r (dd, out) = ?body"
        using False bne by (simp add: render_def Let_def)
      have "Clean ?body = render False (fold (cleanElement False) (elements ?body) (0, []))"
        using Clean_render[OF bne] hdb by simp
      also have "\<dots> = render False (dd, out)"
        using el st False by simp
      finally show ?thesis using c False by simp
    qed
  qed
qed

lemma Clean_idem: "Clean (Clean p) = Clean p"
proof (cases "p = []")
  case True
  then show ?thesis by (simp add: Clean_def cleanElement_def)
next
  case False
  let ?r = "hd p = CHR ''/''"
  obtain dd out where st: "fold (cleanElement ?r) (elements p) (0, []) = (dd, out)"
    by (cases "fold (cleanElement ?r) (elements p) (0, [])")
  have inv: "(\<forall>x\<in>set out. realName x) \<and> (?r \<longrightarrow> dd = 0)"
    by (rule Clean_inv[OF st])
  have "Clean p = render ?r (dd, out)"
    using Clean_render[OF False] st by simp
  then show ?thesis
    using Clean_render_state[of out ?r dd] inv by simp
qed

lemma render_proper:
  assumes "\<forall>x\<in>set out. realName x" and "replicate dd ''..'' @ rev out \<noteq> []"
  shows "render r (dd, out) =
           (if r then ''/'' else []) @ strings_Join (replicate dd ''..'' @ rev out) ''/''"
    and "render r (dd, out) \<noteq> ''.''" and "render r (dd, out) \<noteq> ''/''"
proof -
  let ?es = "replicate dd ''..'' @ rev out"
  let ?body = "strings_Join ?es ''/''"
  have es: "\<forall>e\<in>set ?es. e \<noteq> [] \<and> e \<noteq> ''.'' \<and> CHR ''/'' \<notin> set e"
    by (rule state_elements[OF assms(1)])
  from assms(2) es have hdne: "hd ?es \<noteq> []" by (metis hd_in_set)
  have bne: "?body \<noteq> []" by (rule strings_Join_nonempty[OF assms(2) hdne])
  have hdb: "hd ?body \<noteq> CHR ''/''"
  proof -
    have "hd ?body = hd (hd ?es)" by (rule hd_strings_Join[OF assms(2) hdne])
    moreover have "hd (hd ?es) \<in> set (hd ?es)" using hdne by simp
    moreover have "CHR ''/'' \<notin> set (hd ?es)" using assms(2) es by (metis hd_in_set)
    ultimately show ?thesis by metis
  qed
  have bdot: "?body \<noteq> ''.''"
  proof (cases ?es)
    case Nil
    with assms(2) show ?thesis by simp
  next
    case (Cons e es')
    have e: "e \<noteq> []" "e \<noteq> ''.''" using es Cons by (metis list.set_intros(1))+
    show ?thesis
    proof (cases "es' = []")
      case True
      then show ?thesis using e Cons by simp
    next
      case False
      have "?body = e @ ''/'' @ strings_Join es' ''/''"
        unfolding Cons using False by (simp add: strings_Join_Cons)
      moreover have "length (e @ ''/'' @ strings_Join es' ''/'') \<ge> 2"
        using e(1) by (cases e) simp_all
      ultimately have L: "length ?body \<ge> 2" by simp
      show ?thesis
      proof
        assume "?body = ''.''"
        then have "length ?body = 1" by simp
        with L show False by simp
      qed
    qed
  qed
  show c: "render r (dd, out) = (if r then ''/'' else []) @ ?body"
    using bne by (simp add: render_def Let_def)
  show "render r (dd, out) \<noteq> ''.''"
    unfolding c using bdot by (cases r) simp_all
  show "render r (dd, out) \<noteq> ''/''"
    unfolding c using bne hdb by (cases r; cases ?body) simp_all
qed

lemma Clean_realName: "realName n \<Longrightarrow> Clean n = n"
proof -
  assume n: "realName n"
  then have ne: "n \<noteq> []" and ns: "CHR ''/'' \<notin> set n" by (simp_all add: realName_def)
  have hd: "hd n \<noteq> CHR ''/''" using ne ns by (metis hd_in_set)
  have "fold (cleanElement False) [n] (0, []) = (0, [n])"
    using fold_real[of "[n]" False 0 "[]"] n by simp
  then show ?thesis
    using Clean_render[OF ne] hd ne by (simp add: elements_slash_free[OF ns] render_def)
qed

lemma Clean_append_name:
  assumes p: "p \<noteq> []" and n: "realName n"
  shows "Clean (p @ ''/'' @ n) = joinName (Clean p) n"
proof -
  let ?r = "hd p = CHR ''/''"
  from n have ns: "CHR ''/'' \<notin> set n" and n_ne: "n \<noteq> []" by (simp_all add: realName_def)
  obtain dd out where st: "fold (cleanElement ?r) (elements p) (0, []) = (dd, out)"
    by (cases "fold (cleanElement ?r) (elements p) (0, [])")
  have inv: "\<forall>x\<in>set out. realName x" "?r \<longrightarrow> dd = 0"
    using Clean_inv[OF st] by simp_all
  let ?es = "replicate dd ''..'' @ rev out"
  have cp: "Clean p = render ?r (dd, out)"
    using Clean_render[OF p] st by simp
  have hd': "hd (p @ ''/'' @ n) = hd p" using p by simp
  have el: "elements (p @ ''/'' @ n) = elements p @ [n]"
    using elements_append_slash[of p n] by (simp add: elements_slash_free[OF ns])
  have "fold (cleanElement ?r) (elements p @ [n]) (0, []) = cleanElement ?r n (dd, out)"
    using st by simp
  also have "\<dots> = (dd, n # out)"
    using n by (intro cleanElement_name) (simp_all add: realName_def)
  finally have st': "fold (cleanElement ?r) (elements (p @ ''/'' @ n)) (0, []) = (dd, n # out)"
    unfolding el .
  have cpn: "Clean (p @ ''/'' @ n) = render ?r (dd, n # out)"
    using Clean_render[of "p @ ''/'' @ n"] st' hd' by simp
  have inv': "\<forall>x\<in>set (n # out). realName x" using inv(1) n by simp
  have "replicate dd ''..'' @ rev (n # out) \<noteq> []" by simp
  from render_proper(1)[OF inv' this, of ?r]
  have c': "render ?r (dd, n # out) =
      (if ?r then ''/'' else []) @ strings_Join (?es @ [n]) ''/''"
    by simp
  show ?thesis
  proof (cases "?es = []")
    case True
    then have e1: "dd = 0" "out = []" by simp_all
    have "render ?r (dd, n # out) = (if ?r then ''/'' @ n else n)"
      using n_ne by (simp add: e1 render_def)
    moreover have "render ?r (dd, out) = (if ?r then ''/'' else ''.'')"
      by (simp add: e1 render_def)
    ultimately show ?thesis
      unfolding cpn cp by (simp add: joinName_def)
  next
    case False
    note P = render_proper[OF inv(1) False, of ?r]
    have "strings_Join (?es @ [n]) ''/'' = strings_Join ?es ''/'' @ ''/'' @ n"
      using False by (simp only: strings_Join_snoc if_False)
    then have "render ?r (dd, n # out) = render ?r (dd, out) @ ''/'' @ n"
      unfolding c' P(1) by simp
    moreover have "joinName (render ?r (dd, out)) n = render ?r (dd, out) @ ''/'' @ n"
      using P(2,3) by (simp add: joinName_def)
    ultimately show ?thesis unfolding cpn cp by simp
  qed
qed

lemma Join_dir_name:
  assumes "realName n"
  shows "Join [d, n] = joinName (Clean d) n"
proof (cases "d = []")
  case True
  have "n \<noteq> []" using assms by (simp add: realName_def)
  then show ?thesis
    using True Clean_realName[OF assms] by (simp add: joinName_def Clean_def)
next
  case False
  then have "Join [d, n] = Clean (d @ ''/'' @ n)" by simp
  then show ?thesis using Clean_append_name[OF False assms] by simp
qed

lemma Clean_nonempty: "Clean p \<noteq> []"
  by (cases "p = []") (simp_all add: Clean_def Let_def split_def)

lemma joinName_inj_name: "joinName d n = joinName d m \<longleftrightarrow> n = m"
  by (simp add: joinName_def)

lemma joinName_inj_dir:
  assumes "d1 \<noteq> []" "d2 \<noteq> []"
  shows "joinName d1 n = joinName d2 n \<longleftrightarrow> d1 = d2"
proof
  assume eq: "joinName d1 n = joinName d2 n"
  have len: "\<And>d. d \<noteq> [] \<Longrightarrow> length (joinName d n) = (if d = ''.'' then length n else if d = ''/'' then length n + 1 else length d + 1 + length n)"
    by (simp add: joinName_def)
  show "d1 = d2"
  proof (cases "d1 = ''.'' \<or> d1 = ''/'' \<or> d2 = ''.'' \<or> d2 = ''/''")
    case False
    then have "d1 @ ''/'' @ n = d2 @ ''/'' @ n" using eq by (simp add: joinName_def)
    then show ?thesis by simp
  next
    case True
    have "length (joinName d1 n) = length (joinName d2 n)" using eq by simp
    then show ?thesis
      using True assms eq
      by (auto simp: joinName_def split: if_splits)
  qed
qed simp

lemma Split_base_no_slash: "CHR ''/'' \<notin> set (snd (Split p))"
proof -
  have "CHR ''/'' \<notin> set (takeWhile (\<lambda>c. c \<noteq> CHR ''/'') (rev p))"
    by (auto dest: set_takeWhileD)
  then show ?thesis by (simp add: Split_def Let_def)
qed

lemma realName_k: "CHR ''/'' \<notin> set b \<Longrightarrow> realName (''k-'' @ b)"
  by (simp add: realName_def)

lemma takeWhile_absent: "c \<notin> set xs \<Longrightarrow> takeWhile (\<lambda>x. x \<noteq> c) xs = xs"
  by (induction xs) auto

lemma takeWhile_upto: "c \<notin> set xs \<Longrightarrow> takeWhile (\<lambda>x. x \<noteq> c) (xs @ c # ys) = xs"
  by (induction xs) auto

lemma Split_no_slash: "CHR ''/'' \<notin> set n \<Longrightarrow> Split n = ([], n)"
  by (simp add: Split_def Let_def takeWhile_absent)

lemma Split_append_slash:
  assumes "CHR ''/'' \<notin> set n"
  shows "Split (x @ CHR ''/'' # n) = (x @ ''/'', n)"
proof -
  have "takeWhile (\<lambda>c. c \<noteq> CHR ''/'') (rev n @ CHR ''/'' # rev x) = rev n"
    using assms by (simp add: takeWhile_upto)
  then show ?thesis by (simp add: Split_def Let_def)
qed

lemma Split_joinName:
  assumes "CHR ''/'' \<notin> set n"
  shows "Split (joinName d n) =
     (if d = ''.'' then ([], n) else if d = ''/'' then (''/'', n) else (d @ ''/'', n))"
  using Split_no_slash[OF assms] Split_append_slash[OF assms, of d]
    Split_append_slash[OF assms, of "[]"]
  by (simp add: joinName_def)

lemma joinName_inj:
  assumes "joinName d n = joinName d' n'"
    and "CHR ''/'' \<notin> set n" "CHR ''/'' \<notin> set n'" "d \<noteq> []" "d' \<noteq> []"
  shows "d = d' \<and> n = n'"
proof -
  have "Split (joinName d n) = Split (joinName d' n')" using assms(1) by simp
  then show ?thesis
    unfolding Split_joinName[OF assms(2)] Split_joinName[OF assms(3)]
    using assms(4,5) by (auto split: if_splits)
qed

lemma Join_cleaned: "Join es = [] \<or> (\<exists>p. Join es = Clean p)"
  by (induction es) auto

lemma Clean_trailing_slash: "p \<noteq> [] \<Longrightarrow> Clean (p @ ''/'') = Clean p"
proof -
  assume p: "p \<noteq> []"
  have el: "elements (p @ ''/'') = elements p @ [[]]"
    using elements_append_slash[of p "[]"] by simp
  have "hd (p @ ''/'') = hd p" using p by simp
  then show ?thesis
    using Clean_render[of "p @ ''/''"] Clean_render[OF p] p
    by (simp add: el cleanElement_skip)
qed

lemma state_butlast:
  assumes "\<forall>x\<in>set out. realName x" and "r \<longrightarrow> dd = 0"
    and "replicate dd ''..'' @ rev out \<noteq> []"
  obtains dd' out' n where
    "replicate dd ''..'' @ rev out = (replicate dd' ''..'' @ rev out') @ [n]"
    "\<forall>x\<in>set out'. realName x" "r \<longrightarrow> dd' = 0" "CHR ''/'' \<notin> set n"
proof (cases out)
  case Nil
  with assms(3) obtain k where k: "dd = Suc k" by (cases dd) simp_all
  have "replicate dd ''..'' @ rev out = (replicate k ''..'' @ rev []) @ [''..'']"
    unfolding k Nil by (simp add: replicate_append_same)
  moreover have "r \<longrightarrow> k = 0" using assms(2) k by simp
  ultimately show ?thesis using that[of k "[]" "''..''"] by simp
next
  case (Cons x xs)
  have "replicate dd ''..'' @ rev out = (replicate dd ''..'' @ rev xs) @ [x]"
    unfolding Cons by simp
  moreover have "\<forall>y\<in>set xs. realName y" "CHR ''/'' \<notin> set x"
    using assms(1) Cons by (simp_all add: realName_def)
  ultimately show ?thesis using that[of dd xs x] assms(2) by simp
qed

lemma rejoin_cleaned: "joinName (Dir (Clean p)) (snd (Split (Clean p))) = Clean p"
proof (cases "p = []")
  case True
  then show ?thesis
    by (simp add: Clean_def Dir_def Split_def joinName_def)
next
  case False
  let ?r = "hd p = CHR ''/''"
  obtain dd out where st: "fold (cleanElement ?r) (elements p) (0, []) = (dd, out)"
    by (cases "fold (cleanElement ?r) (elements p) (0, [])")
  have inv: "\<forall>x\<in>set out. realName x" "?r \<longrightarrow> dd = 0"
    using Clean_inv[OF st] by simp_all
  let ?es = "replicate dd ''..'' @ rev out"
  have cp: "Clean p = render ?r (dd, out)"
    using Clean_render[OF False] st by simp
  have root: "Clean ''/'' = ''/''" by (simp add: Clean_def cleanElement_def)
  show ?thesis
  proof (cases "?es = []")
    case True
    then have "Clean p = (if ?r then ''/'' else ''.'')"
      unfolding cp by (simp add: render_def)
    then show ?thesis
      by (simp add: Clean_def Dir_def Split_def joinName_def cleanElement_def)
  next
    case ne: False
    from state_butlast[OF inv ne] obtain dd' out' n where
      b: "?es = (replicate dd' ''..'' @ rev out') @ [n]"
         "\<forall>x\<in>set out'. realName x" "?r \<longrightarrow> dd' = 0" "CHR ''/'' \<notin> set n"
      by blast
    let ?es' = "replicate dd' ''..'' @ rev out'"
    have c: "Clean p = (if ?r then ''/'' else []) @ strings_Join (?es' @ [n]) ''/''"
      unfolding cp render_proper(1)[OF inv(1) ne] b(1) ..
    show ?thesis
    proof (cases "?es' = []")
      case True
      then have c': "Clean p = (if ?r then ''/'' @ n else n)"
        unfolding c by simp
      show ?thesis
      proof (cases ?r)
        case True
        then have "Clean p = [] @ CHR ''/'' # n" using c' by simp
        then have "Split (Clean p) = (''/'', n)"
          using Split_append_slash[OF b(4), of "[]"] by simp
        then show ?thesis using True c' root by (simp add: Dir_def joinName_def)
      next
        case False
        then have "Clean p = n" using c' by simp
        then have "Split (Clean p) = ([], n)" using Split_no_slash[OF b(4)] by simp
        then show ?thesis using False c' by (simp add: Dir_def joinName_def Clean_def)
      qed
    next
      case False
      let ?P = "render ?r (dd', out')"
      have P: "?P = (if ?r then ''/'' else []) @ strings_Join ?es' ''/''"
        "?P \<noteq> ''.''" "?P \<noteq> ''/''"
        by (rule render_proper[OF b(2) False])+
      have Pne: "?P \<noteq> []" by (rule render_nonempty)
      have "strings_Join (?es' @ [n]) ''/'' = strings_Join ?es' ''/'' @ ''/'' @ n"
        using False by (simp only: strings_Join_snoc if_False)
      then have c': "Clean p = ?P @ CHR ''/'' # n"
        unfolding c P(1) by simp
      have sp: "Split (Clean p) = (?P @ ''/'', n)"
        unfolding c' by (rule Split_append_slash[OF b(4)])
      have "Dir (Clean p) = Clean (?P @ ''/'')" by (simp add: Dir_def sp)
      also have "\<dots> = Clean ?P" by (rule Clean_trailing_slash[OF Pne])
      also have "\<dots> = ?P" by (rule Clean_render_state[OF b(2,3)])
      finally have d: "Dir (Clean p) = ?P" .
      have "joinName (Dir (Clean p)) (snd (Split (Clean p))) = joinName ?P n"
        by (simp only: d sp snd_conv)
      also have "\<dots> = ?P @ CHR ''/'' # n"
        using P(2,3) by (simp add: joinName_def)
      also have "\<dots> = Clean p" by (simp only: c')
      finally show ?thesis .
    qed
  qed
qed

lemma rejoin_Join: "joinName (Dir (Join es)) (snd (Split (Join es))) = Join es"
proof -
  from Join_cleaned[of es] consider "Join es = []" | p where "Join es = Clean p" by blast
  then show ?thesis
  proof cases
    case 1
    then show ?thesis by (simp add: Dir_def Split_def Clean_def joinName_def)
  next
    case 2
    then show ?thesis using rejoin_cleaned[of p] by simp
  qed
qed

lemma target_name:
  "Join [fst (Split f), ''k-'' @ snd (Split f)] = joinName (Dir f) (''k-'' @ snd (Split f))"
proof -
  have r: "realName (''k-'' @ snd (Split f))"
    by (rule realName_k[OF Split_base_no_slash])
  show ?thesis
    using Join_dir_name[OF r, of "fst (Split f)"] by (simp add: Dir_def del: Join.simps)
qed

lemma consts_name: "Join [Dir f, ''k-consts.go''] = joinName (Dir f) ''k-consts.go''"
proof -
  have r: "realName ''k-consts.go''" by (simp add: realName_def)
  show ?thesis using Join_dir_name[OF r, of "Dir f"] by (simp add: Dir_def Clean_idem)
qed

lemma Dir_nonempty: "Dir f \<noteq> []"
  by (simp add: Dir_def Clean_nonempty)

lemma k_name_no_slash: "CHR ''/'' \<notin> set (''k-'' @ snd (Split f))"
  using Split_base_no_slash[of f] by simp

lemma target_inj:
  assumes "Join [fst (Split (Join es)), ''k-'' @ snd (Split (Join es))] =
           Join [fst (Split (Join es')), ''k-'' @ snd (Split (Join es'))]"
  shows "Join es = Join es'"
proof -
  have "joinName (Dir (Join es)) (''k-'' @ snd (Split (Join es))) =
        joinName (Dir (Join es')) (''k-'' @ snd (Split (Join es')))"
    using assms unfolding target_name .
  from joinName_inj[OF this k_name_no_slash k_name_no_slash Dir_nonempty Dir_nonempty]
  have "Dir (Join es) = Dir (Join es')" "snd (Split (Join es)) = snd (Split (Join es'))"
    by simp_all
  then have "joinName (Dir (Join es)) (snd (Split (Join es))) =
             joinName (Dir (Join es')) (snd (Split (Join es')))"
    by simp
  then show ?thesis unfolding rejoin_Join .
qed

lemma target_not_consts:
  assumes "Join [fst (Split f), ''k-'' @ snd (Split f)] = Join [Dir g, ''k-consts.go'']"
  shows "snd (Split f) = ''consts.go''"
proof -
  have "joinName (Dir f) (''k-'' @ snd (Split f)) = joinName (Dir g) ''k-consts.go''"
    using assms unfolding target_name consts_name .
  from joinName_inj[OF this k_name_no_slash _ Dir_nonempty Dir_nonempty]
  show ?thesis by simp
qed

section \<open>The generation driver\<close>

lemma patch_ast_Inr:
  assumes "patch_ast R p out ast (patches, prot) = Inr (patches', prot')"
  shows "patches' = patches @
           (if prot (Name (protectionUnit p out ast)) = None then [protectionUnit p out ast] else []) @
           documentUnits R p out ast"
    and "prot' = (if prot (Name (protectionUnit p out ast)) = None
                  then prot(Name (protectionUnit p out ast) \<mapsto> protectionUnit p out ast)
                  else prot)"
proof -
  obtain scope where s: "BuildScope (utils p) ast = Inr scope"
    using assms by (cases "BuildScope (utils p) ast") (simp_all add: patch_ast_def)
  obtain path where g: "GetFilePath (utils p) scope ast = Inr path"
    using assms s by (cases "GetFilePath (utils p) scope ast") (simp_all add: patch_ast_def Let_def del: Join.simps)
  obtain imps where r: "ResolveImports (utils p) scope = Inr imps"
    using assms s g
    by (cases "ResolveImports (utils p) scope") (simp_all add: patch_ast_def Let_def split_def del: Join.simps)
  let ?data = "\<lparr>AST = ast, PkgName = NamespaceToPackage (utils p) (GoNamespace ast),
                Imports = filterStdLib (module p) imps\<rparr>"
  obtain content where t: "fileTpl p ?data = Inr content"
    using assms s g r
    by (cases "fileTpl p ?data") (simp_all add: patch_ast_def Let_def split_def del: Join.simps)
  have c: "copyIDL p \<Longrightarrow> \<exists>src. R (Filename ast) = Inr src"
    using assms s g r t
    by (cases "R (Filename ast)") (simp_all add: patch_ast_def Let_def split_def del: Join.simps)
  have sc: "docScope p ast = scope" by (simp add: docScope_def s)
  have fu: "docFull p out ast = Join [out, path]" by (simp add: docFull_def sc g)
  show "patches' = patches @
           (if prot (Name (protectionUnit p out ast)) = None then [protectionUnit p out ast] else []) @
           documentUnits R p out ast"
    using assms s g r t c
    by (cases "copyIDL p")
      (auto simp add: patch_ast_def Let_def split_def protectionUnit_def documentUnits_def
        docDir_def fu sc simp del: Join.simps)
  show "prot' = (if prot (Name (protectionUnit p out ast)) = None
                  then prot(Name (protectionUnit p out ast) \<mapsto> protectionUnit p out ast)
                  else prot)"
    using assms s g r t c
    by (cases "copyIDL p")
      (auto simp add: patch_ast_def Let_def split_def protectionUnit_def documentUnits_def
        docDir_def fu sc simp del: Join.simps)
qed

lemma patch_loop_Inr:
  assumes "patch_loop R p out docs (patches, prot) = Inr (patches', prot')"
    and "\<forall>c. prot c \<noteq> None \<longleftrightarrow> c \<in> set (map (\<lambda>a. Name (protectionUnit p out a)) pre)"
  shows "patches' = patches @ concat (map (\<lambda>i.
            (if Name (protectionUnit p out (docs ! i)) \<in>
                  set (map (\<lambda>a. Name (protectionUnit p out a)) (pre @ take i docs))
             then [] else [protectionUnit p out (docs ! i)]) @
            documentUnits R p out (docs ! i)) [0..<length docs])"
  using assms
proof (induction docs arbitrary: patches prot pre)
  case Nil
  then show ?case by simp
next
  case (Cons a docs)
  let ?nm = "\<lambda>a. Name (protectionUnit p out a)"
  obtain st1 where st1: "patch_ast R p out a (patches, prot) = Inr st1"
    using Cons.prems(1) by (cases "patch_ast R p out a (patches, prot)") simp_all
  obtain patches1 prot1 where st1': "st1 = (patches1, prot1)" by (cases st1)
  have rest: "patch_loop R p out docs (patches1, prot1) = Inr (patches', prot')"
    using Cons.prems(1) st1 st1' by simp
  have seen: "prot (?nm a) = None \<longleftrightarrow> ?nm a \<notin> set (map ?nm pre)"
    using Cons.prems(2) by blast
  have p1: "patches1 = patches @
      (if ?nm a \<in> set (map ?nm pre) then [] else [protectionUnit p out a]) @
      documentUnits R p out a"
    using patch_ast_Inr(1)[OF st1[unfolded st1']] seen by simp
  have prot1: "prot1 = (if prot (?nm a) = None then prot(?nm a \<mapsto> protectionUnit p out a) else prot)"
    by (rule patch_ast_Inr(2)[OF st1[unfolded st1']])
  have inv1: "\<forall>c. prot1 c \<noteq> None \<longleftrightarrow> c \<in> set (map ?nm (pre @ [a]))"
    unfolding prot1 using Cons.prems(2) by auto
  have ih: "patches' = patches1 @ concat (map (\<lambda>i.
            (if ?nm (docs ! i) \<in> set (map ?nm ((pre @ [a]) @ take i docs))
             then [] else [protectionUnit p out (docs ! i)]) @
            documentUnits R p out (docs ! i)) [0..<length docs])"
    by (rule Cons.IH[OF rest inv1])
  have idx: "[0..<length (a # docs)] = 0 # map Suc [0..<length docs]"
    by (simp add: upt_conv_Cons map_Suc_upt del: upt_Suc)
  let ?G = "\<lambda>i. (if ?nm (docs ! i) \<in> set (map ?nm ((pre @ [a]) @ take i docs))
             then [] else [protectionUnit p out (docs ! i)]) @
            documentUnits R p out (docs ! i)"
  let ?F = "\<lambda>i. (if ?nm ((a # docs) ! i) \<in> set (map ?nm (pre @ take i (a # docs)))
             then [] else [protectionUnit p out ((a # docs) ! i)]) @
            documentUnits R p out ((a # docs) ! i)"
  have pt: "?G i = ?F (Suc i)" for i by auto
  have F0: "?F 0 = (if ?nm a \<in> set (map ?nm pre) then [] else [protectionUnit p out a]) @
      documentUnits R p out a"
    by simp
  have "concat (map ?F [0..<length (a # docs)]) =
        ?F 0 @ concat (map (\<lambda>i. ?F (Suc i)) [0..<length docs])"
    unfolding idx by (simp only: list.map concat.simps map_map comp_def)
  also have "\<dots> = ?F 0 @ concat (map ?G [0..<length docs])"
    by (simp only: pt)
  finally have "patches @ concat (map ?F [0..<length (a # docs)]) =
        (patches @ ?F 0) @ concat (map ?G [0..<length docs])"
    by (simp only: append_assoc)
  also have "patches @ ?F 0 = patches1" unfolding p1 F0 ..
  finally show ?case using ih by (simp only:)
qed

lemma protection_name_eq_iff:
  "Name (protectionUnit p out a) = Name (protectionUnit p out b) \<longleftrightarrow>
     docDir p out a = docDir p out b"
proof -
  have r: "realName ''k-consts.go''" by (simp add: realName_def)
  have n: "\<And>a. Name (protectionUnit p out a) = joinName (docDir p out a) ''k-consts.go''"
    unfolding protectionUnit_def using Join_dir_name[OF r]
    by (simp add: docDir_def Dir_def Clean_idem del: Join.simps)
  have ne: "\<And>a. docDir p out a \<noteq> []"
    by (simp add: docDir_def Dir_def Clean_nonempty)
  show ?thesis unfolding n by (rule joinName_inj_dir[OF ne ne])
qed

lemma protection_name_seen_iff:
  "Name (protectionUnit p out a) \<in> set (map (\<lambda>b. Name (protectionUnit p out b)) docs) \<longleftrightarrow>
     docDir p out a \<in> set (map (docDir p out) docs)"
  by (induction docs) (simp_all add: protection_name_eq_iff)

lemma patch_output:
  assumes "patch ReadFile p req = (out, None)"
  shows "out = concat (map (\<lambda>i.
            (if docDir p (OutputPath req) (DepthFirstSearch req ! i) \<in>
                  set (map (docDir p (OutputPath req)) (take i (DepthFirstSearch req)))
             then [] else [protectionUnit p (OutputPath req) (DepthFirstSearch req ! i)]) @
            documentUnits ReadFile p (OutputPath req) (DepthFirstSearch req ! i))
          [0..<length (DepthFirstSearch req)])"
proof -
  obtain st where st: "patch_loop ReadFile p (OutputPath req) (DepthFirstSearch req) ([], Map.empty) = Inr st"
    using assms
    by (cases "patch_loop ReadFile p (OutputPath req) (DepthFirstSearch req) ([], Map.empty)")
       (simp_all add: patch_def)
  obtain patches prot where st': "st = (patches, prot)" by (cases st)
  have "out = patches" using assms st st' by (simp add: patch_def)
  moreover have "patches = [] @ concat (map (\<lambda>i.
            (if Name (protectionUnit p (OutputPath req) (DepthFirstSearch req ! i)) \<in>
                  set (map (\<lambda>a. Name (protectionUnit p (OutputPath req) a)) ([] @ take i (DepthFirstSearch req)))
             then [] else [protectionUnit p (OutputPath req) (DepthFirstSearch req ! i)]) @
            documentUnits ReadFile p (OutputPath req) (DepthFirstSearch req ! i))
          [0..<length (DepthFirstSearch req)])"
    by (rule patch_loop_Inr[OF st[unfolded st']]) simp
  ultimately show ?thesis
    unfolding protection_name_seen_iff by simp
qed

lemma blocks_snoc:
  "blocks key first rest (xs @ [a]) =
     blocks key first rest xs @ (if key a \<in> set (map key xs) then [] else [first a]) @ rest a"
proof -
  let ?F = "\<lambda>ys i. (if key (ys ! i) \<in> set (map key (take i ys)) then [] else [first (ys ! i)]) @
                        rest (ys ! i)"
  have "map (?F (xs @ [a])) [0..<length xs] = map (?F xs) [0..<length xs]"
    by (rule map_cong) (simp_all add: nth_append)
  moreover have "?F (xs @ [a]) (length xs) =
      (if key a \<in> set (map key xs) then [] else [first a]) @ rest a"
    by simp
  ultimately show ?thesis
    unfolding blocks_def by (simp del: map_eq_conv)
qed

lemma blocks_distinct:
  assumes "\<forall>a\<in>set xs. \<forall>b\<in>set xs. N a = N b \<longrightarrow> key a = key b"
    and "\<forall>a\<in>set xs. \<forall>b\<in>set xs. T a \<noteq> N b"
    and "distinct (map T xs)"
  shows "distinct (blocks key N (\<lambda>a. [T a]) xs) \<and>
         set (blocks key N (\<lambda>a. [T a]) xs) \<subseteq> N ` set xs \<union> T ` set xs"
  using assms
proof (induction xs rule: rev_induct)
  case Nil
  then show ?case by (simp add: blocks_def)
next
  case (snoc a xs)
  let ?B = "blocks key N (\<lambda>a. [T a]) xs"
  have sub: "x \<in> set (xs @ [a])" if "x \<in> set xs" for x using that by simp
  have p1: "\<forall>a\<in>set xs. \<forall>b\<in>set xs. N a = N b \<longrightarrow> key a = key b"
    using snoc.prems(1) sub by blast
  have p2: "\<forall>a\<in>set xs. \<forall>b\<in>set xs. T a \<noteq> N b"
    using snoc.prems(2) sub by blast
  have p3: "distinct (map T xs)" using snoc.prems(3) by simp
  have ih: "distinct ?B" "set ?B \<subseteq> N ` set xs \<union> T ` set xs"
    using snoc.IH[OF p1 p2 p3] by simp_all
  have Ta: "T a \<notin> set ?B"
  proof
    assume "T a \<in> set ?B"
    with ih(2) consider b where "b \<in> set xs" "T a = N b" | b where "b \<in> set xs" "T a = T b"
      by auto
    then show False
    proof cases
      case 1
      have "b \<in> set (xs @ [a])" "a \<in> set (xs @ [a])" using 1(1) by simp_all
      with snoc.prems(2) have "T a \<noteq> N b" by blast
      with 1(2) show False by simp
    next
      case 2
      with snoc.prems(3) show False by auto
    qed
  qed
  have Na: "N a \<notin> set ?B" if "key a \<notin> set (map key xs)"
  proof
    assume "N a \<in> set ?B"
    with ih(2) consider b where "b \<in> set xs" "N a = N b" | b where "b \<in> set xs" "N a = T b"
      by auto
    then show False
    proof cases
      case 1
      have "b \<in> set (xs @ [a])" "a \<in> set (xs @ [a])" using 1(1) by simp_all
      with snoc.prems(1) 1(2) have "key a = key b" by blast
      with 1(1) that show False by auto
    next
      case 2
      have "b \<in> set (xs @ [a])" "a \<in> set (xs @ [a])" using 2(1) by simp_all
      with snoc.prems(2) have "T b \<noteq> N a" by blast
      with 2(2) show False by simp
    qed
  qed
  have "a \<in> set (xs @ [a])" by simp
  with snoc.prems(2) have TN: "T a \<noteq> N a" by blast
  show ?case
    unfolding blocks_snoc using ih Ta Na TN by auto
qed

lemma map_blocks:
  "map f (blocks key first rest xs) = blocks key (\<lambda>a. f (first a)) (\<lambda>a. map f (rest a)) xs"
proof -
  have "map f ((if c then [] else [x]) @ ys) = (if c then [] else [f x]) @ map f ys" for c x ys
    by simp
  then show ?thesis
    unfolding blocks_def by (simp add: map_concat comp_def del: map_append)
qed

lemma documentUnits_split:
  "documentUnits R p out ast = renderedUnit p out ast # copyUnits R p out ast"
  by (simp add: documentUnits_def renderedUnit_def copyUnits_def Let_def del: Join.simps)

lemma scheme_names_distinct:
  assumes dist: "distinct (map (docFull p dst) docs)"
    and nb: "\<forall>ast\<in>set docs. snd (Split (docFull p dst ast)) \<noteq> ''consts.go''"
  shows "distinct (map Name (blocks (docDir p dst) (protectionUnit p dst)
            (\<lambda>ast. [renderedUnit p dst ast]) docs))"
proof -
  let ?tgt = "\<lambda>f. Join [fst (Split f), ''k-'' @ snd (Split f)]"
  let ?T = "\<lambda>a. ?tgt (docFull p dst a)"
  let ?N = "\<lambda>a. Name (protectionUnit p dst a)"
  have ru: "Name (renderedUnit p dst a) = ?T a" for a
    by (simp add: renderedUnit_def Let_def del: Join.simps)
  have names: "map Name (blocks (docDir p dst) (protectionUnit p dst)
            (\<lambda>ast. [renderedUnit p dst ast]) docs) = blocks (docDir p dst) ?N (\<lambda>a. [?T a]) docs"
    unfolding map_blocks by (simp add: ru del: Join.simps)
  have h1: "\<forall>a\<in>set docs. \<forall>b\<in>set docs. ?N a = ?N b \<longrightarrow> docDir p dst a = docDir p dst b"
    using protection_name_eq_iff by blast
  have h2: "\<forall>a\<in>set docs. \<forall>b\<in>set docs. ?T a \<noteq> ?N b"
  proof (intro ballI notI)
    fix a b
    assume a: "a \<in> set docs" and eq: "?T a = ?N b"
    have "?N b = Join [Dir (docFull p dst b), ''k-consts.go'']"
      by (simp add: protectionUnit_def docDir_def del: Join.simps)
    with eq have "snd (Split (docFull p dst a)) = ''consts.go''"
      using target_not_consts by simp
    with nb a show False by blast
  qed
  have inj: "inj_on ?tgt (set (map (docFull p dst) docs))"
  proof (rule inj_onI)
    fix f g
    assume f: "f \<in> set (map (docFull p dst) docs)" and g: "g \<in> set (map (docFull p dst) docs)"
      and eq: "?tgt f = ?tgt g"
    from f obtain es where fe: "f = Join es" by (auto simp: docFull_def simp del: Join.simps)
    from g obtain es' where ge: "g = Join es'" by (auto simp: docFull_def simp del: Join.simps)
    show "f = g" using target_inj[of es es'] eq unfolding fe ge by simp
  qed
  have "distinct (map ?tgt (map (docFull p dst) docs))"
    using dist inj by (simp only: distinct_map)
  then have h3: "distinct (map ?T docs)" by (simp add: comp_def del: Join.simps)
  from blocks_distinct[OF h1 h2 h3] show ?thesis unfolding names by simp
qed

lemma patch_ast_Inl:
  assumes "patch_ast R p out ast st = Inl e"
  shows "(\<exists>format cause. e = Errorf format (Filename ast) cause) \<or>
         (\<exists>scope. BuildScope (utils p) ast = Inr scope \<and> GetFilePath (utils p) scope ast = Inl e)"
  using assms
  by (cases st)
     (auto simp add: patch_ast_def Let_def split_def simp del: Join.simps
        split: sum.splits if_splits)

lemma patch_loop_Inl:
  assumes "patch_loop R p out docs st = Inl e"
  shows "\<exists>ast\<in>set docs. (\<exists>format cause. e = Errorf format (Filename ast) cause) \<or>
         (\<exists>scope. BuildScope (utils p) ast = Inr scope \<and> GetFilePath (utils p) scope ast = Inl e)"
  using assms
proof (induction docs arbitrary: st)
  case Nil
  then show ?case by simp
next
  case (Cons a docs)
  show ?case
  proof (cases "patch_ast R p out a st")
    case (Inl e')
    with Cons.prems have "e' = e" by simp
    with patch_ast_Inl[OF Inl] show ?thesis by auto
  next
    case (Inr st')
    with Cons.prems have "patch_loop R p out docs st' = Inl e" by simp
    from Cons.IH[OF this] show ?thesis by auto
  qed
qed

text \<open>
  A failing run returns the nil slice, and its error either was wrapped in this file with
  the filename of the document at which it arose (scope resolution, import resolution,
  rendering, source read) or is the error of \<^verbatim>\<open>GetFilePath\<close> for that document, unchanged.
\<close>

lemma patch_error_shape:
  assumes "patch ReadFile p req = (out, Some e)"
  shows "out = [] \<and>
         (\<exists>ast\<in>set (DepthFirstSearch req).
            (\<exists>format cause. e = Errorf format (Filename ast) cause) \<or>
            (\<exists>scope. BuildScope (utils p) ast = Inr scope \<and>
                     GetFilePath (utils p) scope ast = Inl e))"
proof -
  have l: "patch_loop ReadFile p (OutputPath req) (DepthFirstSearch req) ([], Map.empty) = Inl e"
    using assms
    by (cases "patch_loop ReadFile p (OutputPath req) (DepthFirstSearch req) ([], Map.empty)")
       (auto simp: patch_def)
  have "out = []" using assms l by (simp add: patch_def)
  with patch_loop_Inl[OF l] show ?thesis by simp
qed

lemma patch_output_or_nil:
  "fst (patch R p req) = [] \<or>
   fst (patch R p req) =
     blocks (docDir p (OutputPath req)) (protectionUnit p (OutputPath req))
       (\<lambda>ast. renderedUnit p (OutputPath req) ast # copyUnits R p (OutputPath req) ast)
       (DepthFirstSearch req)"
proof (cases "snd (patch R p req)")
  case None
  then have "patch R p req = (fst (patch R p req), None)" by (metis prod.collapse)
  from patch_output[OF this] show ?thesis
    unfolding blocks_def documentUnits_split by simp
next
  case (Some e)
  then have "patch R p req = (fst (patch R p req), Some e)" by (metis prod.collapse)
  from patch_error_shape[OF this] show ?thesis by simp
qed



text \<open>
  Claim C2, as stated, fails: for a document whose output file is \<open>consts.go\<close>, the target
  path \<open>k-consts.go\<close> is the protection file path of its directory, and the run returns
  two units with that path (the protection unit first).
\<close>

theorem patch_consts_document_shares_path:
  "map Name (fst (patch exampleReadFile examplePatcher
       \<lparr>OutputPath = ''/out'', DepthFirstSearch = [docConsts]\<rparr>)) =
     [''/out/pkg/k-consts.go'', ''/out/pkg/k-consts.go''] \<and>
   Join [fst (Split ''/out/pkg/consts.go''), ''k-'' @ snd (Split ''/out/pkg/consts.go'')] =
     Join [Dir ''/out/pkg/consts.go'', ''k-consts.go'']"
  by (simp add: docConsts_def patch_def patch_ast_def examplePatcher_def exampleUtils_def
      Clean_def cleanElement_def Split_def Dir_def Let_def split_def)

lemma target_consts_iff:
  "Join [fst (Split full), ''k-'' @ snd (Split full)] = Join [Dir full, ''k-consts.go'']
     \<longleftrightarrow> snd (Split full) = ''consts.go''"
proof -
  have "joinName (Dir full) (''k-'' @ snd (Split full)) = joinName (Dir full) ''k-consts.go''
     \<longleftrightarrow> ''k-'' @ snd (Split full) = ''k-consts.go''"
    by (rule joinName_inj_name)
  then show ?thesis unfolding target_name consts_name by simp
qed

text \<open>
  Claim C2, amended. For every document, the per-document target path (the directory
  joined with \<open>k-\<close> and the base name) equals the protection file path (the directory joined
  with \<open>k-consts.go\<close>) exactly when the base name is \<open>consts.go\<close>; for every other base name
  the two paths differ. In every run whose documents have pairwise distinct full output
  paths, none of them with the base name \<open>consts.go\<close>, the protection units and the rendered
  units have pairwise distinct file paths, whether \<^verbatim>\<open>copyIDL\<close> is set or not; the list that
  \<^verbatim>\<open>patch\<close> returns is empty (a failed run) or consists of these units and, after each
  rendered unit, the copy of its IDL source when \<^verbatim>\<open>copyIDL\<close> is set. The paths of the copies
  are not covered: with IDL files \<open>k-a.go\<close> and \<open>a.thrift\<close> in one directory, the copy of the
  first and the rendered unit of the second are both at \<open>k-a.go\<close>.
\<close>

theorem patch_scheme_paths_distinct_except_consts:
  "(Join [fst (Split full), ''k-'' @ snd (Split full)] = Join [Dir full, ''k-consts.go'']
      \<longleftrightarrow> snd (Split full) = ''consts.go'') \<and>
   (distinct (map (docFull p (OutputPath req)) (DepthFirstSearch req)) \<longrightarrow>
    (\<forall>ast\<in>set (DepthFirstSearch req).
        snd (Split (docFull p (OutputPath req) ast)) \<noteq> ''consts.go'') \<longrightarrow>
    distinct (map Name
      (blocks (docDir p (OutputPath req)) (protectionUnit p (OutputPath req))
         (\<lambda>ast. [renderedUnit p (OutputPath req) ast]) (DepthFirstSearch req)))) \<and>
   (fst (patch ReadFile p req) = [] \<or>
    fst (patch ReadFile p req) =
      blocks (docDir p (OutputPath req)) (protectionUnit p (OutputPath req))
        (\<lambda>ast. renderedUnit p (OutputPath req) ast # copyUnits ReadFile p (OutputPath req) ast)
        (DepthFirstSearch req)) \<and>
   map Name (fst (patch exampleSources copyingPatcher
       \<lparr>OutputPath = ''/out'', DepthFirstSearch = [docKA, docA]\<rparr>)) =
     [''/out/pkg/k-consts.go'', ''/out/pkg/k-k-a.go'', ''/out/pkg/k-a.go'',
      ''/out/pkg/k-a.go'', ''/out/pkg/a.thrift'']"
proof -
  have "map Name (fst (patch exampleSources copyingPatcher
       \<lparr>OutputPath = ''/out'', DepthFirstSearch = [docKA, docA]\<rparr>)) =
     [''/out/pkg/k-consts.go'', ''/out/pkg/k-k-a.go'', ''/out/pkg/k-a.go'',
      ''/out/pkg/k-a.go'', ''/out/pkg/a.thrift'']"
    by (simp add: docKA_def docA_def patch_def patch_ast_def copyingPatcher_def
        exampleUtils_def exampleSources_def Clean_def cleanElement_def Split_def Dir_def
        Base_def Let_def split_def)
  then show ?thesis
    using target_consts_iff scheme_names_distinct patch_output_or_nil by blast
qed

text \<open>
  Two documents with different base names under one directory, copying on: the
  protection unit and the two rendered units are at three distinct paths.
\<close>

theorem patch_scheme_paths_distinct_except_consts_witness:
  "map Name (blocks (docDir copyingPatcher ''/out'') (protectionUnit copyingPatcher ''/out'')
         (\<lambda>ast. [renderedUnit copyingPatcher ''/out'' ast]) [docA, docB]) =
     [''/out/pkg/k-consts.go'', ''/out/pkg/k-a.go'', ''/out/pkg/k-b.go''] \<and>
   distinct (map Name (blocks (docDir copyingPatcher ''/out'') (protectionUnit copyingPatcher ''/out'')
         (\<lambda>ast. [renderedUnit copyingPatcher ''/out'' ast]) [docA, docB])) \<and>
   Join [fst (Split ''/out/pkg/a.go''), ''k-'' @ snd (Split ''/out/pkg/a.go'')] \<noteq>
     Join [Dir ''/out/pkg/a.go'', ''k-consts.go'']"
proof -
  let ?req = "\<lparr>OutputPath = ''/out'', DepthFirstSearch = [docA, docB]\<rparr>"
  have f: "docFull copyingPatcher ''/out'' docA = ''/out/pkg/a.go''"
          "docFull copyingPatcher ''/out'' docB = ''/out/pkg/b.go''"
    by (simp_all add: docFull_def docScope_def docA_def docB_def copyingPatcher_def
        exampleUtils_def Clean_def cleanElement_def)
  have d: "distinct (map (docFull copyingPatcher (OutputPath ?req)) (DepthFirstSearch ?req))"
    by (simp add: f)
  have b: "\<forall>ast\<in>set (DepthFirstSearch ?req).
      snd (Split (docFull copyingPatcher (OutputPath ?req) ast)) \<noteq> ''consts.go''"
    by (simp add: f Split_def)
  have s: "snd (Split ''/out/pkg/a.go'') \<noteq> ''consts.go''" by (simp add: Split_def)
  have dir: "docDir copyingPatcher ''/out'' docA = ''/out/pkg''"
            "docDir copyingPatcher ''/out'' docB = ''/out/pkg''"
    by (simp_all add: docDir_def f Dir_def Split_def Clean_def cleanElement_def)
  have n: "Name (protectionUnit copyingPatcher ''/out'' docA) = ''/out/pkg/k-consts.go''"
    by (simp add: protectionUnit_def dir) (simp add: Clean_def cleanElement_def)
  have u: "Name (renderedUnit copyingPatcher ''/out'' docA) = ''/out/pkg/k-a.go''"
          "Name (renderedUnit copyingPatcher ''/out'' docB) = ''/out/pkg/k-b.go''"
    by (simp_all add: renderedUnit_def f Split_def Clean_def cleanElement_def)
  have names: "map Name (blocks (docDir copyingPatcher ''/out'')
         (protectionUnit copyingPatcher ''/out'')
         (\<lambda>ast. [renderedUnit copyingPatcher ''/out'' ast]) [docA, docB]) =
     [''/out/pkg/k-consts.go'', ''/out/pkg/k-a.go'', ''/out/pkg/k-b.go'']"
    by (simp add: blocks_def upt_conv_Cons dir n u)
  from patch_scheme_paths_distinct_except_consts[of "''/out/pkg/a.go''" copyingPatcher ?req
      exampleSources] d b s names
  show ?thesis by simp
qed

text \<open>
  The error of \<^verbatim>\<open>GetFilePath\<close> is the one error that \<^verbatim>\<open>patch\<close> returns as it is
  (\<^verbatim>\<open>return nil, err\<close>): with a resolver that fails on a document, the result is that error.
\<close>

lemma patch_GetFilePath_error_passed_on:
  "patch exampleReadFile examplePatcher
       \<lparr>OutputPath = ''/out'', DepthFirstSearch = [docA, docNoPath]\<rparr> =
     ([], Some (External ''no namespace''))"
  by (simp add: docA_def docNoPath_def patch_def patch_ast_def
      examplePatcher_def exampleUtils_def Clean_def cleanElement_def Split_def Dir_def
      Let_def split_def)



text \<open>
  Claim C5. In a run that returns without error, the output list is the concatenation,
  in document order, of one block per document: the protection unit of the document's
  directory (path: the directory joined with \<open>k-consts.go\<close>; content: the package clause and
  the \<open>KitexUnusedProtection\<close> declaration) if no earlier document has the same directory,
  then the units of the document itself. So each directory that a document maps to gets
  exactly one protection unit, placed just before the first document unit of that
  directory.
\<close>

theorem patch_protection_once_per_directory:
  assumes "patch ReadFile p req = (out, None)"
  shows "out = concat (map (\<lambda>i.
            (if docDir p (OutputPath req) (DepthFirstSearch req ! i) \<in>
                  set (map (docDir p (OutputPath req)) (take i (DepthFirstSearch req)))
             then [] else [protectionUnit p (OutputPath req) (DepthFirstSearch req ! i)]) @
            documentUnits ReadFile p (OutputPath req) (DepthFirstSearch req ! i))
          [0..<length (DepthFirstSearch req)])"
  using assms by (rule patch_output)

text \<open>
  The scenario of the spec: two documents under one directory give three units, the
  protection unit first.
\<close>

theorem patch_protection_once_per_directory_witness:
  "map Name (fst (patch exampleReadFile examplePatcher
       \<lparr>OutputPath = ''/out'', DepthFirstSearch = [docA, docB]\<rparr>)) =
     [''/out/pkg/k-consts.go'', ''/out/pkg/k-a.go'', ''/out/pkg/k-b.go'']"
proof -
  let ?req = "\<lparr>OutputPath = ''/out'', DepthFirstSearch = [docA, docB]\<rparr>"
  obtain out where h: "patch exampleReadFile examplePatcher ?req = (out, None)"
    by (simp add: docA_def docB_def patch_def patch_ast_def examplePatcher_def exampleUtils_def
      Clean_def cleanElement_def Split_def Dir_def Let_def split_def)
  have d: "docDir examplePatcher ''/out'' docA = ''/out/pkg''"
          "docDir examplePatcher ''/out'' docB = ''/out/pkg''"
    by (simp_all add: docDir_def docFull_def docScope_def docA_def docB_def
      examplePatcher_def exampleUtils_def Clean_def cleanElement_def Split_def Dir_def
      Let_def split_def)
  have n: "Name (protectionUnit examplePatcher ''/out'' docA) = ''/out/pkg/k-consts.go''"
    by (simp add: protectionUnit_def d) (simp add: Clean_def cleanElement_def)
  have u: "map Name (documentUnits exampleReadFile examplePatcher ''/out'' docA) = [''/out/pkg/k-a.go'']"
          "map Name (documentUnits exampleReadFile examplePatcher ''/out'' docB) = [''/out/pkg/k-b.go'']"
    by (simp_all add: documentUnits_def docFull_def docScope_def docA_def docB_def
      examplePatcher_def exampleUtils_def Clean_def cleanElement_def Split_def Dir_def
      Let_def split_def)
  have i: "[0..<length (DepthFirstSearch ?req)] = [0, 1]"
    by (simp add: upt_conv_Cons)
  from patch_protection_once_per_directory[OF h] have "map Name out =
      [''/out/pkg/k-consts.go'', ''/out/pkg/k-a.go'', ''/out/pkg/k-b.go'']"
    unfolding i by (simp add: d n u)
  with h show ?thesis by simp
qed

end
